theory Spec2Isabelle
  imports
    Main
    "HOL-Library.Char_ord"
    "HOL-Library.List_Lexorder"
    "HOL-Library.Product_Lexorder"
    "HOL-Library.AList"
begin

section \<open>Python string operations used by the two mirror scripts\<close>

text \<open>
  A Python \<open>str\<close> is modelled as a \<open>string\<close> (a list of 8-bit characters, read as the code
  points 0..255).  Comparison of strings is Python's: lexicographic on code points.
\<close>

definition endswith :: "string \<Rightarrow> string \<Rightarrow> bool" where
  \<comment> \<open>\<open>s.endswith(suf)\<close>\<close>
  "endswith s suf = (length suf \<le> length s \<and> drop (length s - length suf) s = suf)"

definition rfind :: "char \<Rightarrow> string \<Rightarrow> int" where
  \<comment> \<open>\<open>s.rfind(c)\<close>: index of the last occurrence, -1 when there is none\<close>
  "rfind c s =
     (if c \<in> set s then int (length s) - 1 - int (length (takeWhile (\<lambda>x. x \<noteq> c) (rev s)))
      else - 1)"

fun split_max :: "char \<Rightarrow> nat \<Rightarrow> string \<Rightarrow> string list" where
  \<comment> \<open>\<open>s.split(sep, maxsplit)\<close> for a one-character separator\<close>
  "split_max sep 0 s = [s]"
| "split_max sep (Suc n) s =
     (if sep \<in> set s
      then takeWhile (\<lambda>x. x \<noteq> sep) s # split_max sep n (tl (dropWhile (\<lambda>x. x \<noteq> sep) s))
      else [s])"

fun split_all :: "char \<Rightarrow> string \<Rightarrow> string list" where
  \<comment> \<open>\<open>s.split(sep)\<close> for a one-character separator; the result is never empty\<close>
  "split_all sep [] = [[]]"
| "split_all sep (x # xs) =
     (if x = sep then [] # split_all sep xs
      else (case split_all sep xs of
              [] \<Rightarrow> [[x]]
            | w # ws \<Rightarrow> (x # w) # ws))"

definition is_space :: "char \<Rightarrow> bool" where
  \<comment> \<open>\<open>str.isspace\<close> on the code points below 256\<close>
  "is_space c = (let n = (of_char c :: nat) in
     (9 \<le> n \<and> n \<le> 13) \<or> (28 \<le> n \<and> n \<le> 32) \<or> n = 133 \<or> n = 160)"

definition strip :: "string \<Rightarrow> string" where
  \<comment> \<open>\<open>s.strip()\<close>\<close>
  "strip s = rev (dropWhile is_space (rev (dropWhile is_space s)))"

definition basename :: "string \<Rightarrow> string" where
  \<comment> \<open>\<open>posixpath.basename\<close>: \<open>i = p.rfind('/') + 1; return p[i:]\<close>\<close>
  "basename p = drop (nat (rfind CHR ''/'' p + 1)) p"

definition splitext :: "string \<Rightarrow> string \<times> string" where
  \<comment> \<open>\<open>posixpath.splitext\<close> (\<open>genericpath._splitext\<close> with \<open>sep = '/'\<close>, no \<open>altsep\<close>,
      \<open>extsep = '.'\<close>): the extension starts at the last dot, unless that dot comes before
      the last separator or only dots lie between the separator and it\<close>
  "splitext p =
     (let sepIndex = rfind CHR ''/'' p;
          dotIndex = rfind CHR ''.'' p
      in if dotIndex > sepIndex
         then (let filenameIndex = sepIndex + 1
               in if list_ex (\<lambda>c. c \<noteq> CHR ''.'')
                       (take (nat (dotIndex - filenameIndex)) (drop (nat filenameIndex) p))
                  then (take (nat dotIndex) p, drop (nat dotIndex) p)
                  else (p, []))
         else (p, []))"

section \<open>Archive records and \<open>Archive.parse\<close>\<close>

text \<open>
  \<open>class Archive(NamedTuple)\<close>.  The first field is called \<open>path\<close> in
  \<open>mirror-provider-local.py\<close> and \<open>key\<close> in \<open>mirror-provider.py\<close>; the other five fields are
  the same in both files.  A named tuple compares and hashes as the tuple of its fields, in
  declaration order: \<open>astuple\<close> is that tuple.
\<close>

record archive =
  path :: string
  file_name :: string
  provider :: string
  version :: string
  os :: string
  arch :: string

definition astuple :: "archive \<Rightarrow> string \<times> string \<times> string \<times> string \<times> string \<times> string" where
  "astuple a = (path a, file_name a, provider a, version a, os a, arch a)"

definition parse_local :: "string \<Rightarrow> archive option" where
  \<comment> \<open>\<open>Archive.parse\<close> of \<open>mirror-provider-local.py\<close>\<close>
  "parse_local archive_path =
     (let file_name = basename archive_path
      in if \<not> endswith file_name ''.zip'' then None
         else (let without_ext = fst (splitext file_name);
                   parts = split_max CHR ''_'' 3 without_ext
               in if length parts \<noteq> 4 \<or> list_ex (\<lambda>p. p = []) parts then None
                  else Some \<lparr>path = archive_path, file_name = file_name,
                             provider = parts ! 0, version = parts ! 1,
                             os = parts ! 2, arch = parts ! 3\<rparr>))"

definition parse_remote :: "string \<Rightarrow> archive option" where
  \<comment> \<open>\<open>Archive.parse\<close> of \<open>mirror-provider.py\<close>; \<open>file_name[:-4]\<close> drops the last four
      characters (and is empty for a shorter string)\<close>
  "parse_remote key =
     (let file_name = last (split_all CHR ''/'' key)
      in if \<not> endswith file_name ''.zip'' then None
         else (let without_ext = take (length file_name - 4) file_name;
                   parts = split_max CHR ''_'' 3 without_ext
               in if length parts \<noteq> 4 \<or> list_ex (\<lambda>p. p = []) parts then None
                  else Some \<lparr>path = key, file_name = file_name,
                             provider = parts ! 0, version = parts ! 1,
                             os = parts ! 2, arch = parts ! 3\<rparr>))"

definition archive_name :: "string \<Rightarrow> string \<Rightarrow> string \<Rightarrow> string \<Rightarrow> string" where
  \<comment> \<open>the naming convention of the header comments: \<open>{provider}_{version}_{os}_{arch}.zip\<close>\<close>
  "archive_name pr ve pl ar = pr @ ''_'' @ ve @ ''_'' @ pl @ ''_'' @ ar @ ''.zip''"

definition parse_bucket_and_prefix :: "string \<Rightarrow> string \<times> string" where
  \<comment> \<open>the same function in both files: \<open>v.split('/', 1)\<close>\<close>
  "parse_bucket_and_prefix v =
     (let parts = split_max CHR ''/'' 1 v
      in if length parts = 2 then (parts ! 0, parts ! 1) else (parts ! 0, []))"

section \<open>The object store, the fingerprint procedure and errors\<close>

text \<open>
  The two scripts talk to S3 through \<open>boto3\<close> and to the \<open>dirhasher\<close> program through
  \<open>subprocess.run\<close>.  Both are outside the repository; they are modelled by a store of objects
  (an association list from bucket and key to body and user metadata), a log of every request
  and subprocess run in the order issued, and an environment \<open>env\<close> that fixes what does not
  change during a run: which buckets and keys answer a HEAD request with an error, what the
  \<open>dirhasher\<close> subprocess returns, and the local files.  The captured \<open>stdout\<close> is the text that
  \<open>str(p.stdout, 'utf-8')\<close> yields.  Writes to the store are taken to succeed.  An exception is a
  result \<open>Inl\<close>; the state reached when it was raised is not kept.  Console output
  (\<open>print\<close>, and the counter \<open>total_archives\<close> that is only printed) is not modelled.
\<close>

datatype mirror_msg =
    Usage
  | CannotAccessBucket string string
  | DirhasherFailed int

datatype error =
    MirrorError mirror_msg
  | ClientError string
  | FileNotFoundError string

type_synonym s3_key = "string \<times> string"

type_synonym ('k, 'v) dict = "('k \<times> 'v) list"

record s3_object =
  body :: string
  metadata :: "(string, string) dict"

datatype hashed = LocalFile string | Downloaded s3_key

datatype event =
    HeadBucket string
  | ListObjects string string
  | HeadObject s3_key
  | DownloadFile s3_key
  | RunDirhasher hashed
  | UploadFile s3_key string string "(string, string) dict"
  | CopyFrom s3_key s3_key "(string, string) dict"
  | PutObject s3_key string string

record world =
  objects :: "(s3_key, s3_object) dict"
  log :: "event list"

record completed_process =
  returncode :: int
  stdout :: string

record env =
  head_bucket_error :: "string \<Rightarrow> string option"
  load_error :: "s3_key \<Rightarrow> string option"
  dirhasher_path :: "string \<Rightarrow> completed_process"
  dirhasher_body :: "string \<Rightarrow> completed_process"
  local_files :: "string \<Rightarrow> string option"

definition DIRHASH_METADATA :: string where
  "DIRHASH_METADATA = ''dirhash''"

definition emit :: "event \<Rightarrow> world \<Rightarrow> world" where
  "emit e w = w\<lparr>log := log w @ [e]\<rparr>"

definition lookup :: "world \<Rightarrow> s3_key \<Rightarrow> s3_object option" where
  "lookup w k = map_of (objects w) k"

definition store :: "s3_key \<Rightarrow> s3_object \<Rightarrow> world \<Rightarrow> world" where
  "store k ob w = w\<lparr>objects := AList.update k ob (objects w)\<rparr>"

definition obj_metadata :: "world \<Rightarrow> s3_key \<Rightarrow> (string, string) dict" where
  \<comment> \<open>\<open>obj.metadata\<close> of a resource whose \<open>load()\<close> has succeeded\<close>
  "obj_metadata w k = (case lookup w k of None \<Rightarrow> [] | Some ob \<Rightarrow> metadata ob)"

definition load :: "env \<Rightarrow> s3_key \<Rightarrow> world \<Rightarrow> error + (s3_object \<times> world)" where
  \<comment> \<open>\<open>obj.load()\<close>: a HEAD request; a missing object answers with the error code 404\<close>
  "load env k w =
     (case load_error env k of
        Some code \<Rightarrow> Inl (ClientError code)
      | None \<Rightarrow>
          (case lookup w k of
             None \<Rightarrow> Inl (ClientError ''404'')
           | Some ob \<Rightarrow> Inr (ob, emit (HeadObject k) w)))"

definition check_bucket_access :: "env \<Rightarrow> string \<Rightarrow> world \<Rightarrow> error + world" where
  "check_bucket_access env bucket_name w =
     (case head_bucket_error env bucket_name of
        Some code \<Rightarrow> Inl (MirrorError (CannotAccessBucket bucket_name code))
      | None \<Rightarrow> Inr (emit (HeadBucket bucket_name) w))"

definition dirhash_local :: "env \<Rightarrow> string \<Rightarrow> world \<Rightarrow> error + (string \<times> world)" where
  \<comment> \<open>\<open>dirhash\<close> of \<open>mirror-provider-local.py\<close>\<close>
  "dirhash_local env p w =
     (let proc = dirhasher_path env p;
          w1 = emit (RunDirhasher (LocalFile p)) w
      in if returncode proc \<noteq> 0 then Inl (MirrorError (DirhasherFailed (returncode proc)))
         else Inr (strip (stdout proc), w1))"

definition dirhash_remote :: "env \<Rightarrow> s3_key \<Rightarrow> world \<Rightarrow> error + (string \<times> world)" where
  \<comment> \<open>\<open>dirhash\<close> of \<open>mirror-provider.py\<close>: the object is downloaded to a temporary file, on
      which the subprocess runs\<close>
  "dirhash_remote env obj w =
     (case lookup w obj of
        None \<Rightarrow> Inl (ClientError ''404'')
      | Some ob \<Rightarrow>
          (let w1 = emit (DownloadFile obj) w;
               proc = dirhasher_body env (body ob);
               w2 = emit (RunDirhasher (Downloaded obj)) w1
           in if returncode proc \<noteq> 0 then Inl (MirrorError (DirhasherFailed (returncode proc)))
              else Inr (strip (stdout proc), w2)))"

definition object_exists :: "env \<Rightarrow> s3_key \<Rightarrow> world \<Rightarrow> error + (bool \<times> world)" where
  \<comment> \<open>the same function in both files\<close>
  "object_exists env obj w =
     (case load env obj w of
        Inr (ob, w1) \<Rightarrow> Inr (True, w1)
      | Inl (ClientError code) \<Rightarrow>
          if code = ''404'' then Inr (False, emit (HeadObject obj) w) else Inl (ClientError code)
      | Inl e \<Rightarrow> Inl e)"

definition upload_file ::
  "env \<Rightarrow> s3_key \<Rightarrow> string \<Rightarrow> string \<Rightarrow> (string, string) dict \<Rightarrow> world \<Rightarrow> error + world" where
  \<comment> \<open>\<open>obj.upload_file(Filename=.., ExtraArgs=dict(ContentType=.., Metadata=..))\<close>\<close>
  "upload_file env obj filename content_type md w =
     (case local_files env filename of
        None \<Rightarrow> Inl (FileNotFoundError filename)
      | Some content \<Rightarrow>
          Inr (emit (UploadFile obj filename content_type md)
                 (store obj \<lparr>body = content, metadata = md\<rparr> w)))"

definition copy_from :: "s3_key \<Rightarrow> s3_key \<Rightarrow> (string, string) dict \<Rightarrow> world \<Rightarrow> error + world" where
  \<comment> \<open>\<open>obj.copy_from(CopySource=.., Metadata=.., MetadataDirective='REPLACE')\<close>\<close>
  "copy_from obj src md w =
     (case lookup w src of
        None \<Rightarrow> Inl (ClientError ''NoSuchKey'')
      | Some ob \<Rightarrow>
          Inr (emit (CopyFrom obj src md) (store obj \<lparr>body = body ob, metadata = md\<rparr> w)))"

definition put_object :: "s3_key \<Rightarrow> string \<Rightarrow> string \<Rightarrow> world \<Rightarrow> world" where
  \<comment> \<open>\<open>obj.put(Body=.., ContentType=..)\<close>\<close>
  "put_object obj content content_type w =
     emit (PutObject obj content content_type) (store obj \<lparr>body = content, metadata = []\<rparr> w)"

definition list_objects :: "world \<Rightarrow> string \<Rightarrow> string \<Rightarrow> string list" where
  \<comment> \<open>\<open>bucket.objects.filter(Prefix=..)\<close>: the keys of the bucket that start with the
      prefix, in the order S3 lists them\<close>
  "list_objects w bucket_name pre =
     sort (map snd (filter (\<lambda>k. fst k = bucket_name \<and> take (length pre) (snd k) = pre)
                      (map fst (objects w))))"

section \<open>\<open>copy_archive\<close>\<close>

definition copy_archive_local ::
  "env \<Rightarrow> string \<Rightarrow> s3_key \<Rightarrow> world \<Rightarrow> error + ((string \<times> bool) \<times> world)" where
  \<comment> \<open>\<open>copy_archive\<close> of \<open>mirror-provider-local.py\<close>\<close>
  "copy_archive_local env archive_path mirror_obj w =
     (case dirhash_local env archive_path w of
        Inl e \<Rightarrow> Inl e
      | Inr (h1, w1) \<Rightarrow>
          (case object_exists env mirror_obj w1 of
             Inl e \<Rightarrow> Inl e
           | Inr (ex, w2) \<Rightarrow>
               (let copy_required =
                      \<not> (ex \<and> map_of (obj_metadata w2 mirror_obj) DIRHASH_METADATA = Some h1)
                in if \<not> copy_required then Inr ((h1, False), w2)
                   else (case upload_file env mirror_obj archive_path ''application/zip''
                                [(DIRHASH_METADATA, h1)] w2 of
                           Inl e \<Rightarrow> Inl e
                         | Inr w3 \<Rightarrow> Inr ((h1, True), w3)))))"

definition copy_archive_remote ::
  "env \<Rightarrow> s3_key \<Rightarrow> s3_key \<Rightarrow> world \<Rightarrow> error + ((string \<times> bool) \<times> world)" where
  \<comment> \<open>\<open>copy_archive\<close> of \<open>mirror-provider.py\<close>; the test
      \<open>mirror_obj.metadata.get(DIRHASH_METADATA)\<close> is Python truthiness: a missing key and the
      empty string both count as false.  Reading \<open>rel_obj.metadata\<close> loads the release object.\<close>
  "copy_archive_remote env rel_obj mirror_obj w =
     (case object_exists env mirror_obj w of
        Inl e \<Rightarrow> Inl e
      | Inr (ex, w1) \<Rightarrow>
          (case (if ex then map_of (obj_metadata w1 mirror_obj) DIRHASH_METADATA else None) of
             Some (c # cs) \<Rightarrow> Inr ((c # cs, False), w1)
           | _ \<Rightarrow>
               (case dirhash_remote env rel_obj w1 of
                  Inl e \<Rightarrow> Inl e
                | Inr (h1, w2) \<Rightarrow>
                    (case load env rel_obj w2 of
                       Inl e \<Rightarrow> Inl e
                     | Inr (rel, w3) \<Rightarrow>
                         (let md = AList.update DIRHASH_METADATA h1 (metadata rel)
                          in case copy_from mirror_obj rel_obj md w3 of
                               Inl e \<Rightarrow> Inl e
                             | Inr w4 \<Rightarrow> Inr ((h1, True), w4))))))"

section \<open>The metadata documents and their serialisation\<close>

text \<open>
  \<open>json.dumps(data, sort_keys=True, indent=2)\<close> on the values the scripts build: strings,
  lists and dictionaries with string keys.  A dictionary is an association list with distinct
  keys in insertion order; \<open>d[k] = v\<close> is \<open>AList.update k v d\<close>, which replaces the value of a
  key in place and appends a new key.  Strings are escaped as the default \<open>ensure_ascii\<close>
  encoder does.
\<close>

datatype json =
    JString string
  | JArray "json list"
  | JObject "(string \<times> json) list"

definition hex_digit :: "nat \<Rightarrow> char" where
  "hex_digit n = ''0123456789abcdef'' ! (n mod 16)"

definition encode_char :: "char \<Rightarrow> string" where
  "encode_char c =
     (if c = CHR 0x22 then [CHR 0x5C, CHR 0x22]
      else if c = CHR 0x5C then [CHR 0x5C, CHR 0x5C]
      else if c = CHR 0x0A then [CHR 0x5C, CHR ''n'']
      else if c = CHR 0x0D then [CHR 0x5C, CHR ''r'']
      else if c = CHR 0x09 then [CHR 0x5C, CHR ''t'']
      else if c = CHR 0x08 then [CHR 0x5C, CHR ''b'']
      else if c = CHR 0x0C then [CHR 0x5C, CHR ''f'']
      else if (of_char c :: nat) < 32 \<or> (of_char c :: nat) > 126
        then [CHR 0x5C, CHR ''u'', CHR ''0'', CHR ''0'',
              hex_digit (of_char c div 16), hex_digit (of_char c)]
      else [c])"

definition encode_string :: "string \<Rightarrow> string" where
  "encode_string s = [CHR 0x22] @ concat (map encode_char s) @ [CHR 0x22]"

definition newline_indent :: "nat \<Rightarrow> string" where
  "newline_indent level = CHR 0x0A # replicate (2 * level) CHR '' ''"

fun join :: "string \<Rightarrow> string list \<Rightarrow> string" where
  "join sep [] = []"
| "join sep [x] = x"
| "join sep (x # y # ys) = x @ sep @ join sep (y # ys)"

function dumps_at :: "nat \<Rightarrow> json \<Rightarrow> string" where
  "dumps_at level (JString s) = encode_string s"
| "dumps_at level (JArray xs) =
     (if xs = [] then ''[]''
      else ''['' @ newline_indent (Suc level) @
           join ('','' @ newline_indent (Suc level)) (map (dumps_at (Suc level)) xs) @
           newline_indent level @ '']'')"
| "dumps_at level (JObject kvs) =
     (if kvs = [] then ''{}''
      else ''{'' @ newline_indent (Suc level) @
           join ('','' @ newline_indent (Suc level))
             (map (\<lambda>kv. encode_string (fst kv) @ '': '' @ dumps_at (Suc level) (snd kv))
                (sort_key fst kvs)) @
           newline_indent level @ ''}'')"
  by pat_completeness auto
termination
proof (relation "measure (\<lambda>(level, j). size j)")
  show "wf (measure (\<lambda>(level, j). size j))" by simp
next
  fix level :: nat and xs :: "json list" and x :: json
  assume "x \<in> set xs"
  then have "size x < Suc (size_list size xs)"
    by (induction xs) auto
  then show "((Suc level, x), (level, JArray xs)) \<in> measure (\<lambda>(level, j). size j)"
    by simp
next
  fix level :: nat and kvs :: "(string \<times> json) list" and kv :: "string \<times> json"
  assume "kv \<in> set (sort_key fst kvs)"
  then have "kv \<in> set kvs" by simp
  moreover have "size (snd kv) < size_prod (\<lambda>x. 0) size kv" by (cases kv) simp
  ultimately have "size (snd kv) < size_list (size_prod (\<lambda>x. 0) size) kvs"
    by (rule size_list_estimation)
  then show "((Suc level, snd kv), (level, JObject kvs)) \<in> measure (\<lambda>(level, j). size j)"
    by simp
qed

definition dumps :: "json \<Rightarrow> string" where
  "dumps j = dumps_at 0 j"

section \<open>Grouping and the driver\<close>

text \<open>
  \<open>provider_versions = defaultdict(lambda: defaultdict(set))\<close>.  A set of archives is a list
  without repetition; it is only ever read through \<open>sorted\<close>.  Reading a missing key of a
  \<open>defaultdict\<close> yields the default.
\<close>

type_synonym provider_versions = "(string, (string, archive list) dict) dict"

definition getitem :: "('k, 'v) dict \<Rightarrow> 'k \<Rightarrow> 'v \<Rightarrow> 'v" where
  "getitem d k dflt = (case map_of d k of None \<Rightarrow> dflt | Some v \<Rightarrow> v)"

definition add_archive :: "archive \<Rightarrow> provider_versions \<Rightarrow> provider_versions" where
  \<comment> \<open>\<open>provider_versions[archive.provider][archive.version].add(archive)\<close>\<close>
  "add_archive a pv =
     (let versions = getitem pv (provider a) [];
          archives = getitem versions (version a) []
      in AList.update (provider a)
           (AList.update (version a) (List.insert a archives) versions) pv)"

fun gather :: "(string \<Rightarrow> archive option) \<Rightarrow> string list \<Rightarrow> provider_versions \<Rightarrow> provider_versions" where
  "gather parse [] pv = pv"
| "gather parse (x # xs) pv =
     (case parse x of
        None \<Rightarrow> gather parse xs pv
      | Some a \<Rightarrow> gather parse xs (add_archive a pv))"

text \<open>
  The loop nest of \<open>main\<close> is the same text in both files but for three places: the mirror
  key of an archive, its \<open>url\<close> in the version document, and the \<open>copy_archive\<close> called.
  The loops take the last two as parameters (\<open>copy\<close> includes the construction of the mirror
  key); \<open>version_data\<close> and \<open>index_data\<close> are the dictionaries under the keys \<open>archives\<close>
  and \<open>versions\<close>.
\<close>

type_synonym copier = "archive \<Rightarrow> world \<Rightarrow> error + ((string \<times> bool) \<times> world)"

definition archive_entry :: "string \<Rightarrow> string \<Rightarrow> json" where
  "archive_entry h1 url = JObject [(''hashes'', JArray [JString h1]), (''url'', JString url)]"

definition os_arch :: "archive \<Rightarrow> string" where
  "os_arch a = os a @ ''_'' @ arch a"

fun archives_loop ::
  "copier \<Rightarrow> (archive \<Rightarrow> string) \<Rightarrow> archive list \<Rightarrow> (string, json) dict \<Rightarrow> world \<Rightarrow>
     error + ((string, json) dict \<times> world)" where
  "archives_loop copy url [] version_data w = Inr (version_data, w)"
| "archives_loop copy url (a # as) version_data w =
     (case copy a w of
        Inl e \<Rightarrow> Inl e
      | Inr ((h1, copied), w1) \<Rightarrow>
          archives_loop copy url as
            (AList.update (os_arch a) (archive_entry h1 (url a)) version_data) w1)"

fun versions_loop ::
  "copier \<Rightarrow> (archive \<Rightarrow> string) \<Rightarrow> string \<Rightarrow> string \<Rightarrow> (string, archive list) dict \<Rightarrow>
     string list \<Rightarrow> (string, json) dict \<Rightarrow> world \<Rightarrow> error + ((string, json) dict \<times> world)" where
  "versions_loop copy url bucket out_prefix versions [] index_data w = Inr (index_data, w)"
| "versions_loop copy url bucket out_prefix versions (v # vs) index_data w =
     (case archives_loop copy url (sort_key astuple (getitem versions v [])) [] w of
        Inl e \<Rightarrow> Inl e
      | Inr (version_data, w1) \<Rightarrow>
          versions_loop copy url bucket out_prefix versions vs
            (AList.update v (JObject []) index_data)
            (put_object (bucket, out_prefix @ v @ ''.json'')
               (dumps (JObject [(''archives'', JObject version_data)])) ''application/json'' w1))"

fun providers_loop ::
  "copier \<Rightarrow> (archive \<Rightarrow> string) \<Rightarrow> string \<Rightarrow> string \<Rightarrow> provider_versions \<Rightarrow>
     string list \<Rightarrow> world \<Rightarrow> error + world" where
  "providers_loop copy url bucket out_prefix pv [] w = Inr w"
| "providers_loop copy url bucket out_prefix pv (p # ps) w =
     (let versions = getitem pv p []
      in case versions_loop copy url bucket out_prefix versions (sort (map fst versions)) [] w of
           Inl e \<Rightarrow> Inl e
         | Inr (index_data, w1) \<Rightarrow>
             providers_loop copy url bucket out_prefix pv ps
               (put_object (bucket, out_prefix @ ''index.json'')
                  (dumps (JObject [(''versions'', JObject index_data)])) ''application/json'' w1))"

definition copy_local :: "env \<Rightarrow> string \<Rightarrow> string \<Rightarrow> copier" where
  \<comment> \<open>lines 191 and 193 of \<open>mirror-provider-local.py\<close>\<close>
  "copy_local env bucket out_prefix a =
     copy_archive_local env (path a) (bucket, out_prefix @ file_name a)"

definition copy_remote :: "env \<Rightarrow> string \<Rightarrow> string \<Rightarrow> string \<Rightarrow> copier" where
  \<comment> \<open>lines 193, 194 and 196 of \<open>mirror-provider.py\<close>\<close>
  "copy_remote env rel_bucket bucket out_prefix a =
     copy_archive_remote env (rel_bucket, path a)
       (bucket, out_prefix @ version a @ ''/'' @ file_name a)"

definition url_remote :: "archive \<Rightarrow> string" where
  "url_remote a = version a @ ''/'' @ file_name a"

definition run_local :: "env \<Rightarrow> string \<Rightarrow> string \<Rightarrow> string list \<Rightarrow> world \<Rightarrow> error + world" where
  \<comment> \<open>lines 172 to 224 of \<open>mirror-provider-local.py\<close>: grouping, then the loop nest\<close>
  "run_local env mirror_bucket_name out_prefix archive_paths w =
     (let pv = gather parse_local archive_paths []
      in providers_loop (copy_local env mirror_bucket_name out_prefix) file_name
           mirror_bucket_name out_prefix pv (sort (map fst pv)) w)"

definition main_local :: "env \<Rightarrow> string list \<Rightarrow> world \<Rightarrow> error + world" where
  \<comment> \<open>\<open>main\<close> of \<open>mirror-provider-local.py\<close>; \<open>argv\<close> is \<open>sys.argv\<close>\<close>
  "main_local env argv w =
     (if length argv < 3 then Inl (MirrorError Usage)
      else (let (mirror_bucket_name, out_prefix) = parse_bucket_and_prefix (argv ! 1);
                archive_paths = drop 2 argv
            in case check_bucket_access env mirror_bucket_name w of
                 Inl e \<Rightarrow> Inl e
               | Inr w1 \<Rightarrow> run_local env mirror_bucket_name out_prefix archive_paths w1))"

definition run_remote ::
  "env \<Rightarrow> string \<Rightarrow> string \<Rightarrow> string \<Rightarrow> string list \<Rightarrow> world \<Rightarrow> error + world" where
  \<comment> \<open>lines 175 to 225 of \<open>mirror-provider.py\<close>, on the keys that the listing yields\<close>
  "run_remote env rel_bucket_name mirror_bucket_name out_prefix keys w =
     (let pv = gather parse_remote keys []
      in providers_loop (copy_remote env rel_bucket_name mirror_bucket_name out_prefix)
           url_remote mirror_bucket_name out_prefix pv (sort (map fst pv)) w)"

definition main_remote :: "env \<Rightarrow> string list \<Rightarrow> world \<Rightarrow> error + world" where
  \<comment> \<open>\<open>main\<close> of \<open>mirror-provider.py\<close>\<close>
  "main_remote env argv w =
     (if length argv \<noteq> 3 then Inl (MirrorError Usage)
      else (let (rel_bucket_name, rel_prefix) = parse_bucket_and_prefix (argv ! 1);
                (mirror_bucket_name, out_prefix) = parse_bucket_and_prefix (argv ! 2)
            in case check_bucket_access env rel_bucket_name w of
                 Inl e \<Rightarrow> Inl e
               | Inr w1 \<Rightarrow>
                   (case check_bucket_access env mirror_bucket_name w1 of
                      Inl e \<Rightarrow> Inl e
                    | Inr w2 \<Rightarrow>
                        run_remote env rel_bucket_name mirror_bucket_name out_prefix
                          (list_objects w2 rel_bucket_name rel_prefix)
                          (emit (ListObjects rel_bucket_name rel_prefix) w2))))"

text \<open>What a run log says was written.\<close>

fun puts :: "event list \<Rightarrow> (s3_key \<times> string) list" where
  "puts [] = []"
| "puts (PutObject k content ct # es) = (k, content) # puts es"
| "puts (e # es) = puts es"

fun copies :: "event list \<Rightarrow> s3_key list" where
  \<comment> \<open>the mirror keys to which an archive was uploaded or copied\<close>
  "copies [] = []"
| "copies (UploadFile k f ct md # es) = k # copies es"
| "copies (CopyFrom k src md # es) = k # copies es"
| "copies (e # es) = copies es"

fun fingerprinted :: "event list \<Rightarrow> hashed list" where
  \<comment> \<open>the runs of the fingerprint procedure\<close>
  "fingerprinted [] = []"
| "fingerprinted (RunDirhasher x # es) = x # fingerprinted es"
| "fingerprinted (e # es) = fingerprinted es"

section \<open>Notions used in the statements\<close>

definition parsed :: "(string \<Rightarrow> archive option) \<Rightarrow> string list \<Rightarrow> archive set" where
  \<comment> \<open>the archives that the inputs parse to\<close>
  "parsed parse xs = {a. \<exists>x \<in> set xs. parse x = Some a}"

definition group :: "provider_versions \<Rightarrow> string \<Rightarrow> string \<Rightarrow> archive list" where
  \<comment> \<open>\<open>provider_versions[p][v]\<close>\<close>
  "group pv p v = getitem (getitem pv p []) v []"

definition members :: "provider_versions \<Rightarrow> archive set" where
  "members pv = {a. a \<in> set (group pv (provider a) (version a))}"

definition wf_pv :: "provider_versions \<Rightarrow> bool" where
  \<comment> \<open>what grouping maintains: keys occur once, no dictionary and no set under a key is
      empty, and every archive sits under its own provider and version\<close>
  "wf_pv pv \<longleftrightarrow>
     distinct (map fst pv) \<and>
     (\<forall>p vs. map_of pv p = Some vs \<longrightarrow>
        distinct (map fst vs) \<and> vs \<noteq> [] \<and>
        (\<forall>v as. map_of vs v = Some as \<longrightarrow>
           distinct as \<and> as \<noteq> [] \<and> (\<forall>a \<in> set as. provider a = p \<and> version a = v)))"

definition cached_dirhash :: "env \<Rightarrow> world \<Rightarrow> s3_key \<Rightarrow> string option" where
  \<comment> \<open>the fingerprint that a successful HEAD request on the key shows, if any\<close>
  "cached_dirhash env w k =
     (if load_error env k = None then map_of (obj_metadata w k) DIRHASH_METADATA else None)"

definition version_doc :: "(archive \<Rightarrow> string) \<Rightarrow> (archive \<Rightarrow> string) \<Rightarrow> archive list \<Rightarrow> string" where
  \<comment> \<open>the version document for archives processed in the given order, when \<open>fp\<close> gives the
      fingerprint that \<open>copy_archive\<close> returned for each\<close>
  "version_doc fp url as =
     dumps (JObject [(''archives'',
       JObject (fold (\<lambda>a. AList.update (os_arch a) (archive_entry (fp a) (url a))) as []))])"

definition index_doc :: "string list \<Rightarrow> string" where
  "index_doc vs = dumps (JObject [(''versions'', JObject (map (\<lambda>v. (v, JObject [])) vs))])"

definition provider_docs ::
  "(archive \<Rightarrow> string) \<Rightarrow> (archive \<Rightarrow> string) \<Rightarrow> string \<Rightarrow> string \<Rightarrow> provider_versions \<Rightarrow>
     string \<Rightarrow> (s3_key \<times> string) list" where
  \<comment> \<open>the documents of one provider, in the order written\<close>
  "provider_docs fp url b pre pv p =
     (let vs = sort (map fst (getitem pv p []))
      in map (\<lambda>v. ((b, pre @ v @ ''.json''), version_doc fp url (sort_key astuple (group pv p v)))) vs
         @ [((b, pre @ ''index.json''), index_doc vs)])"

definition is_version_doc :: "(archive \<Rightarrow> string) \<Rightarrow> archive set \<Rightarrow> string \<Rightarrow> bool" where
  \<comment> \<open>a version document whose entries are exactly those of the archives in \<open>A\<close>\<close>
  "is_version_doc url A doc \<longleftrightarrow>
     (\<exists>entries. doc = dumps (JObject [(''archives'', JObject entries)]) \<and>
        distinct (map fst entries) \<and> set (map fst entries) = os_arch ` A \<and>
        (\<forall>(k, e) \<in> set entries. \<exists>a \<in> A. \<exists>h. k = os_arch a \<and> e = archive_entry h (url a)))"




definition fp_local :: "env \<Rightarrow> archive \<Rightarrow> string" where
  \<comment> \<open>the fingerprint of the local file of an archive\<close>
  "fp_local env a = strip (stdout (dirhasher_path env (path a)))"


definition example_env :: env where
  "example_env =
     \<lparr>head_bucket_error = (\<lambda>b. None), load_error = (\<lambda>k. None),
      dirhasher_path = (\<lambda>p. \<lparr>returncode = 0, stdout = ''h1:'' @ p @ [CHR 0x0A]\<rparr>),
      dirhasher_body = (\<lambda>c. \<lparr>returncode = 0, stdout = ''h1:'' @ c @ [CHR 0x0A]\<rparr>),
      local_files = (\<lambda>p. Some (''zip:'' @ p))\<rparr>"

definition silent_env :: env where
  \<comment> \<open>as \<open>example_env\<close>, with a fingerprint procedure that prints nothing\<close>
  "silent_env = example_env\<lparr>dirhasher_body := (\<lambda>c. \<lparr>returncode = 0, stdout = []\<rparr>)\<rparr>"

definition failing_env :: env where
  \<comment> \<open>as \<open>example_env\<close>, with a fingerprint procedure that exits with code 2 and a
      store that refuses HEAD requests on objects with code 403\<close>
  "failing_env = example_env\<lparr>load_error := (\<lambda>k. Some ''403''),
     dirhasher_path := (\<lambda>p. \<lparr>returncode = 2, stdout = []\<rparr>)\<rparr>"

definition empty_world :: world where
  "empty_world = \<lparr>objects = [], log = []\<rparr>"


definition release_world :: world where
  \<comment> \<open>a releases bucket with one archive, and an empty mirror\<close>
  "release_world =
     \<lparr>objects = [((''rel'', ''x/p_1_l_x.zip''), \<lparr>body = ''B'', metadata = [(''a'', ''b'')]\<rparr>)],
      log = []\<rparr>"


section \<open>The identifier parser\<close>

lemma split_all_nonempty: "split_all c s \<noteq> []"
  by (induction s) (auto split: list.splits)

lemma split_all_no_sep: "c \<notin> set s \<Longrightarrow> split_all c s = [s]"
  by (induction s) auto

lemma length_split_all: "length (split_all c s) = Suc (length (filter (\<lambda>x. x = c) s))"
  by (induction s) (auto split: list.splits)

lemma last_split_all_app: "last (split_all c (pre @ c # suf)) = last (split_all c suf)"
proof (induction pre)
  case Nil
  show ?case by (simp add: split_all_nonempty)
next
  case (Cons x pre)
  show ?case
  proof (cases "x = c")
    case True
    then show ?thesis using Cons by (simp add: split_all_nonempty)
  next
    case False
    obtain w ws where ws: "split_all c (pre @ c # suf) = w # ws"
      using split_all_nonempty [of c "pre @ c # suf"] by (cases "split_all c (pre @ c # suf)") auto
    have "length (split_all c (pre @ c # suf)) \<ge> 2"
      by (simp add: length_split_all)
    with ws have "ws \<noteq> []" by auto
    with ws False Cons show ?thesis by simp
  qed
qed

lemma rfind_absent: "c \<notin> set s \<Longrightarrow> rfind c s = - 1"
  by (simp add: rfind_def)


lemma rfind_last: "c \<notin> set suf \<Longrightarrow> rfind c (pre @ c # suf) = int (length pre)"
proof -
  assume a: "c \<notin> set suf"
  then have "takeWhile (\<lambda>x. x \<noteq> c) (rev suf @ c # rev pre) = rev suf"
    by (simp add: takeWhile_append)
  then show ?thesis by (simp add: rfind_def)
qed

lemma basename_app: "CHR ''/'' \<notin> set suf \<Longrightarrow> basename (pre @ CHR ''/'' # suf) = suf"
proof -
  assume a: "CHR ''/'' \<notin> set suf"
  have "nat (int (length pre) + 1) = Suc (length pre)" by simp
  then show ?thesis using a by (simp add: basename_def rfind_last)
qed

lemma endswith_iff: "endswith s suf \<longleftrightarrow> (\<exists>pre. s = pre @ suf)"
proof
  assume "endswith s suf"
  then have "s = take (length s - length suf) s @ suf"
    unfolding endswith_def by (metis append_take_drop_id)
  then show "\<exists>pre. s = pre @ suf" ..
next
  assume "\<exists>pre. s = pre @ suf"
  then show "endswith s suf" by (auto simp: endswith_def)
qed

lemma endswith_zip_take: "endswith s ''.zip'' \<Longrightarrow> s = take (length s - 4) s @ ''.zip''"
proof -
  assume "endswith s ''.zip''"
  then obtain pre where "s = pre @ ''.zip''" using endswith_iff by blast
  then show ?thesis by simp
qed

lemma split_max_no_sep: "c \<notin> set s \<Longrightarrow> split_max c n s = [s]"
  by (cases n) auto


lemma split_max_Suc_Cons:
  "split_max c (Suc n) s = x # rest \<Longrightarrow> rest \<noteq> [] \<Longrightarrow>
     c \<notin> set x \<and> (\<exists>t. s = x @ c # t \<and> rest = split_max c n t)"
proof -
  assume eq: "split_max c (Suc n) s = x # rest" and ne: "rest \<noteq> []"
  have mem: "c \<in> set s" using eq ne by (auto split: if_splits)
  let ?d = "dropWhile (\<lambda>x. x \<noteq> c) s"
  have "?d \<noteq> []" using mem by simp
  moreover from this have "hd ?d = c" using hd_dropWhile [of "\<lambda>x. x \<noteq> c" s] by simp
  ultimately have d: "?d = c # tl ?d" by (cases ?d) auto
  have x: "x = takeWhile (\<lambda>x. x \<noteq> c) s" and r: "rest = split_max c n (tl ?d)"
    using eq mem by auto
  have "s = x @ ?d" using x by simp
  with d have "s = x @ c # tl ?d" by simp
  moreover have "c \<notin> set x" using x by (auto dest: set_takeWhileD)
  ultimately show ?thesis using r by blast
qed


lemma basename_no_sep: "CHR ''/'' \<notin> set s \<Longrightarrow> basename s = s"
  by (simp add: basename_def rfind_absent)

lemma basename_cases:
  obtains "CHR ''/'' \<notin> set s" "basename s = s"
  | pre where "s = pre @ CHR ''/'' # basename s" "CHR ''/'' \<notin> set (basename s)"
proof (cases "CHR ''/'' \<in> set s")
  case False
  then show ?thesis using that(1) by (simp add: basename_no_sep)
next
  case True
  then obtain pre suf where s: "s = pre @ CHR ''/'' # suf" and n: "CHR ''/'' \<notin> set suf"
    using split_list_last [of "CHR ''/''" s] by blast
  then show ?thesis using that(2) [of pre] by (simp add: basename_app)
qed

lemma basename_split_all: "last (split_all CHR ''/'' s) = basename s"
proof (cases s rule: basename_cases)
  case 1
  then show ?thesis by (simp add: split_all_no_sep)
next
  case (2 pre)
  have "last (split_all CHR ''/'' (pre @ CHR ''/'' # basename s)) = basename s"
    using 2(2) by (simp add: last_split_all_app split_all_no_sep)
  with 2(1) show ?thesis by simp
qed

lemma basename_no_slash: "CHR ''/'' \<notin> set (basename s)"
  by (cases s rule: basename_cases) auto

lemma splitext_zip:
  assumes "CHR ''/'' \<notin> set pre"
  shows "splitext (pre @ ''.zip'') =
    (if list_ex (\<lambda>c. c \<noteq> CHR ''.'') pre then (pre, ''.zip'') else (pre @ ''.zip'', []))"
proof -
  have d: "rfind CHR ''.'' (pre @ ''.zip'') = int (length pre)"
    using rfind_last [of "CHR ''.''" "''zip''" pre] by simp
  have s: "rfind CHR ''/'' (pre @ ''.zip'') = - 1"
    using assms by (simp add: rfind_absent)
  show ?thesis by (simp add: splitext_def d s Let_def)
qed

text \<open>The part of both parsers that follows the computation of the name without its
  extension.\<close>

lemma parse_local_unfold:
  assumes "basename s = pre @ ''.zip''"
  shows "parse_local s =
    (let parts = split_max CHR ''_'' 3 (if list_ex (\<lambda>c. c \<noteq> CHR ''.'') pre then pre else pre @ ''.zip'')
     in if length parts \<noteq> 4 \<or> list_ex (\<lambda>p. p = []) parts then None
        else Some \<lparr>path = s, file_name = pre @ ''.zip'',
                   provider = parts ! 0, version = parts ! 1, os = parts ! 2, arch = parts ! 3\<rparr>)"
proof -
  have "CHR ''/'' \<notin> set pre" using basename_no_slash [of s] assms by simp
  then have "fst (splitext (pre @ ''.zip'')) = (if list_ex (\<lambda>c. c \<noteq> CHR ''.'') pre then pre else pre @ ''.zip'')"
    by (simp add: splitext_zip)
  moreover have "endswith (pre @ ''.zip'') ''.zip''" by (simp add: endswith_def)
  ultimately show ?thesis using assms by (simp add: parse_local_def Let_def)
qed

lemma parse_remote_unfold:
  assumes "basename s = pre @ ''.zip''"
  shows "parse_remote s =
    (let parts = split_max CHR ''_'' 3 pre
     in if length parts \<noteq> 4 \<or> list_ex (\<lambda>p. p = []) parts then None
        else Some \<lparr>path = s, file_name = pre @ ''.zip'',
                   provider = parts ! 0, version = parts ! 1, os = parts ! 2, arch = parts ! 3\<rparr>)"
proof -
  have "endswith (pre @ ''.zip'') ''.zip''" by (simp add: endswith_def)
  then show ?thesis using assms by (simp add: parse_remote_def basename_split_all Let_def)
qed

lemma parse_remote_unfold_local:
  assumes "basename s = pre @ ''.zip''"
  shows "parse_local s = parse_remote s"
proof (cases "list_ex (\<lambda>c. c \<noteq> CHR ''.'') pre")
  case True
  then show ?thesis using assms by (simp add: parse_local_unfold parse_remote_unfold)
next
  case False
  then have dots: "\<forall>c\<in>set pre. c = CHR ''.''" by (simp add: list_ex_iff)
  then have "CHR ''_'' \<notin> set pre" by auto
  moreover from this have "CHR ''_'' \<notin> set (pre @ ''.zip'')" by simp
  ultimately show ?thesis using assms False
    by (simp add: parse_local_unfold parse_remote_unfold split_max_no_sep)
qed

lemma parse_local_eq_parse_remote: "parse_local s = parse_remote s"
proof (cases "endswith (basename s) ''.zip''")
  case False
  then show ?thesis by (simp add: parse_local_def parse_remote_def basename_split_all)
next
  case True
  then obtain pre where "basename s = pre @ ''.zip''" using endswith_iff by blast
  then show ?thesis by (rule parse_remote_unfold_local)
qed


text \<open>
  Claim C10.  On every input string the parser of \<open>mirror-provider-local.py\<close>
  (\<open>os.path.basename\<close>, \<open>os.path.splitext\<close>) and the parser of \<open>mirror-provider.py\<close>
  (\<open>split('/')[-1]\<close>, \<open>[:-4]\<close>) return the same result: both absent, or records equal in
  every field (the first field being the input itself).
\<close>

theorem parse_variants_agree:
  "parse_local s = parse_remote s \<and>
   map_option file_name (parse_local s) = map_option file_name (parse_remote s) \<and>
   map_option provider (parse_local s) = map_option provider (parse_remote s) \<and>
   map_option version (parse_local s) = map_option version (parse_remote s) \<and>
   map_option os (parse_local s) = map_option os (parse_remote s) \<and>
   map_option arch (parse_local s) = map_option arch (parse_remote s)"
  by (simp add: parse_local_eq_parse_remote)

text \<open>The agreement at a key under a directory, where both parsers accept.\<close>

theorem parse_variants_agree_witness:
  "parse_local ''d/pkg_1.0.0_linux_x86_64.zip'' = parse_remote ''d/pkg_1.0.0_linux_x86_64.zip'' \<and>
   parse_remote ''d/pkg_1.0.0_linux_x86_64.zip'' =
     Some \<lparr>path = ''d/pkg_1.0.0_linux_x86_64.zip'', file_name = ''pkg_1.0.0_linux_x86_64.zip'',
       provider = ''pkg'', version = ''1.0.0'', os = ''linux'', arch = ''x86_64''\<rparr>"
proof -
  have "parse_remote ''d/pkg_1.0.0_linux_x86_64.zip'' =
     Some \<lparr>path = ''d/pkg_1.0.0_linux_x86_64.zip'', file_name = ''pkg_1.0.0_linux_x86_64.zip'',
       provider = ''pkg'', version = ''1.0.0'', os = ''linux'', arch = ''x86_64''\<rparr>"
    by code_simp
  then show ?thesis
    using parse_variants_agree [of "''d/pkg_1.0.0_linux_x86_64.zip''"] by simp
qed


lemma split_max_four_parts:
  assumes "split_max c 3 s = [p, v, l, a]"
  shows "s = p @ c # v @ c # l @ c # a"
proof -
  have e: "split_max c (Suc (Suc (Suc 0))) s = [p, v, l, a]"
    using assms by (simp add: numeral_3_eq_3)
  from split_max_Suc_Cons [OF e] obtain t1 where
    t1: "s = p @ c # t1" "[v, l, a] = split_max c (Suc (Suc 0)) t1" by auto
  from split_max_Suc_Cons [OF t1(2) [symmetric]] obtain t2 where
    t2: "t1 = v @ c # t2" "[l, a] = split_max c (Suc 0) t2" by auto
  from split_max_Suc_Cons [OF t2(2) [symmetric]] obtain t3 where
    t3: "t2 = l @ c # t3" "[a] = split_max c 0 t3" by auto
  from t3(2) have "t3 = a" by simp
  with t1(1) t2(1) t3(1) show ?thesis by simp
qed

lemma parse_remote_Some:
  assumes "parse_remote s = Some x"
  shows "provider x \<noteq> [] \<and> version x \<noteq> [] \<and> os x \<noteq> [] \<and> arch x \<noteq> [] \<and>
         basename s = archive_name (provider x) (version x) (os x) (arch x) \<and>
         path x = s \<and> file_name x = basename s"
proof -
  have ew: "endswith (basename s) ''.zip''"
  proof (rule ccontr)
    assume "\<not> endswith (basename s) ''.zip''"
    then have "parse_remote s = None" by (simp add: parse_remote_def basename_split_all)
    with assms show False by simp
  qed
  then obtain pre where pre: "basename s = pre @ ''.zip''" using endswith_iff by blast
  define parts where "parts = split_max CHR ''_'' 3 pre"
  have u: "(if length parts \<noteq> 4 \<or> list_ex (\<lambda>p. p = []) parts then None
        else Some \<lparr>path = s, file_name = pre @ ''.zip'',
                   provider = parts ! 0, version = parts ! 1, os = parts ! 2, arch = parts ! 3\<rparr>) = Some x"
    using assms unfolding parse_remote_unfold [OF pre] Let_def parts_def .
  have len: "length parts = 4"
    using u by (cases "length parts = 4") simp_all
  have ne: "\<not> list_ex (\<lambda>p. p = []) parts"
    using u len by (cases "list_ex (\<lambda>p. p = []) parts") simp_all
  from len obtain p v l a where pvla: "parts = [p, v, l, a]"
    by (auto simp: length_Suc_conv numeral_eq_Suc)
  have x: "x = \<lparr>path = s, file_name = pre @ ''.zip'', provider = p, version = v, os = l, arch = a\<rparr>"
    using u len ne by (simp add: pvla)
  have "pre = p @ CHR ''_'' # v @ CHR ''_'' # l @ CHR ''_'' # a"
    using pvla unfolding parts_def by (rule split_max_four_parts)
  then have "basename s = archive_name p v l a"
    using pre by (simp add: archive_name_def)
  moreover have "p \<noteq> [] \<and> v \<noteq> [] \<and> l \<noteq> [] \<and> a \<noteq> []"
    using ne by (auto simp: pvla)
  ultimately show ?thesis using pre by (simp add: x)
qed






section \<open>Store operations and \<open>copy_archive\<close>\<close>

lemma object_exists_cases:
  "object_exists env obj w =
     (case load_error env obj of
        Some code \<Rightarrow> if code = ''404'' then Inr (False, emit (HeadObject obj) w)
                     else Inl (ClientError code)
      | None \<Rightarrow> Inr (lookup w obj \<noteq> None, emit (HeadObject obj) w))"
  by (auto simp: object_exists_def load_def split: option.splits)

lemma log_emit [simp]: "log (emit e w) = log w @ [e]"
  by (simp add: emit_def)

lemma objects_emit [simp]: "objects (emit e w) = objects w"
  by (simp add: emit_def)

lemma lookup_emit [simp]: "lookup (emit e w) k = lookup w k"
  by (simp add: lookup_def)

lemma obj_metadata_emit [simp]: "obj_metadata (emit e w) k = obj_metadata w k"
  by (simp add: obj_metadata_def)

lemma log_store [simp]: "log (store k ob w) = log w"
  by (simp add: store_def)

lemma lookup_store [simp]: "lookup (store k ob w) k' = (if k' = k then Some ob else lookup w k')"
  by (simp add: lookup_def store_def update_conv')

lemma store_emit: "store k ob (emit e w) = emit e (store k ob w)"
  by (simp add: store_def emit_def)

lemma puts_append [simp]: "puts (xs @ ys) = puts xs @ puts ys"
  by (induction xs rule: puts.induct) auto

lemma copies_append [simp]: "copies (xs @ ys) = copies xs @ copies ys"
  by (induction xs rule: copies.induct) auto

lemma fingerprinted_append [simp]: "fingerprinted (xs @ ys) = fingerprinted xs @ fingerprinted ys"
  by (induction xs rule: fingerprinted.induct) auto

lemma copy_archive_local_eq:
  assumes "returncode (dirhasher_path env p) = 0"
    and "load_error env k = None \<or> load_error env k = Some ''404''"
  shows "copy_archive_local env p k w =
     (let h1 = strip (stdout (dirhasher_path env p));
          w2 = emit (HeadObject k) (emit (RunDirhasher (LocalFile p)) w)
      in if cached_dirhash env w k = Some h1 then Inr ((h1, False), w2)
         else (case local_files env p of
                 None \<Rightarrow> Inl (FileNotFoundError p)
               | Some content \<Rightarrow>
                   Inr ((h1, True),
                        emit (UploadFile k p ''application/zip'' [(DIRHASH_METADATA, h1)])
                          (store k \<lparr>body = content, metadata = [(DIRHASH_METADATA, h1)]\<rparr> w2))))"
  using assms
  by (auto simp: copy_archive_local_def dirhash_local_def object_exists_cases upload_file_def
      cached_dirhash_def obj_metadata_def Let_def split: option.splits)

lemma copy_archive_remote_eq:
  assumes "load_error env mirror = None \<or> load_error env mirror = Some ''404''"
  shows "copy_archive_remote env rel mirror w =
     (let w1 = emit (HeadObject mirror) w
      in case cached_dirhash env w mirror of
           Some (c # cs) \<Rightarrow> Inr ((c # cs, False), w1)
         | _ \<Rightarrow>
            (case lookup w rel of
               None \<Rightarrow> Inl (ClientError ''404'')
             | Some ob \<Rightarrow>
                 (let proc = dirhasher_body env (body ob);
                      h1 = strip (stdout proc);
                      md = AList.update DIRHASH_METADATA h1 (metadata ob)
                  in if returncode proc \<noteq> 0
                     then Inl (MirrorError (DirhasherFailed (returncode proc)))
                     else (case load_error env rel of
                             Some code \<Rightarrow> Inl (ClientError code)
                           | None \<Rightarrow>
                               Inr ((h1, True),
                                 emit (CopyFrom mirror rel md)
                                   (store mirror \<lparr>body = body ob, metadata = md\<rparr>
                                     (emit (HeadObject rel)
                                       (emit (RunDirhasher (Downloaded rel))
                                         (emit (DownloadFile rel) w1)))))))))"
  using assms
  by (auto simp: copy_archive_remote_def object_exists_cases dirhash_remote_def load_def
      copy_from_def cached_dirhash_def obj_metadata_def Let_def
      split: option.splits list.splits)


section \<open>Grouping\<close>

lemma getitem_update [simp]:
  "getitem (AList.update k v d) k' dflt = (if k' = k then v else getitem d k' dflt)"
  by (simp add: getitem_def update_conv')

lemma getitem_Nil [simp]: "getitem [] k dflt = dflt"
  by (simp add: getitem_def)

lemma group_add_archive:
  "group (add_archive a pv) p v =
     (if p = provider a \<and> v = version a then List.insert a (group pv p v) else group pv p v)"
  by (simp add: group_def add_archive_def Let_def)

lemma members_add_archive: "members (add_archive a pv) = insert a (members pv)"
  by (auto simp: members_def group_add_archive)

lemma map_of_update_None: "map_of d k = None \<Longrightarrow> getitem d k [] = []"
  by (simp add: getitem_def)

lemma wf_pvD:
  assumes "wf_pv pv" "map_of pv p = Some vs"
  shows "distinct (map fst vs) \<and> vs \<noteq> [] \<and>
        (\<forall>v as. map_of vs v = Some as \<longrightarrow>
           distinct as \<and> as \<noteq> [] \<and> (\<forall>a \<in> set as. provider a = p \<and> version a = v))"
  using assms unfolding wf_pv_def by blast

lemma wf_pvI:
  assumes "distinct (map fst pv)"
    and "\<And>p vs. map_of pv p = Some vs \<Longrightarrow>
        distinct (map fst vs) \<and> vs \<noteq> [] \<and>
        (\<forall>v as. map_of vs v = Some as \<longrightarrow>
           distinct as \<and> as \<noteq> [] \<and> (\<forall>a \<in> set as. provider a = p \<and> version a = v))"
  shows "wf_pv pv"
  unfolding wf_pv_def using assms by simp

lemma wf_pv_add_archive:
  assumes "wf_pv pv"
  shows "wf_pv (add_archive a pv)"
proof -
  define vs where "vs = getitem pv (provider a) []"
  define as where "as = getitem vs (version a) []"
  define vs' where "vs' = AList.update (version a) (List.insert a as) vs"
  have d: "distinct (map fst pv)" using assms by (simp add: wf_pv_def)
  have vs: "distinct (map fst vs) \<and>
        (\<forall>v bs. map_of vs v = Some bs \<longrightarrow>
           distinct bs \<and> bs \<noteq> [] \<and> (\<forall>b \<in> set bs. provider b = provider a \<and> version b = v))"
  proof (cases "map_of pv (provider a)")
    case None
    then have "vs = []" by (simp add: vs_def getitem_def)
    then show ?thesis by simp
  next
    case (Some vs0)
    then have "vs = vs0" by (simp add: vs_def getitem_def)
    then show ?thesis using wf_pvD [OF assms Some] by simp
  qed
  have as: "distinct as \<and> (\<forall>b \<in> set as. provider b = provider a \<and> version b = version a)"
  proof (cases "map_of vs (version a)")
    case None
    then have "as = []" by (simp add: as_def getitem_def)
    then show ?thesis by simp
  next
    case (Some as0)
    then have "as = as0" by (simp add: as_def getitem_def)
    then show ?thesis using vs Some by simp
  qed
  have m': "map_of vs' = (map_of vs)(version a \<mapsto> List.insert a as)"
    by (simp add: vs'_def update_conv')
  have vs'1: "distinct (map fst vs')" using vs by (simp add: vs'_def distinct_update)
  have vs'2: "vs' \<noteq> []" unfolding vs'_def by (cases vs) auto
  have vs'3: "distinct bs \<and> bs \<noteq> [] \<and> (\<forall>b \<in> set bs. provider b = provider a \<and> version b = v)"
    if m: "map_of vs' v = Some bs" for v bs
  proof (cases "v = version a")
    case True
    then have bs: "bs = List.insert a as" using m by (simp add: m')
    have "List.insert a as \<noteq> []" by (cases "a \<in> set as") auto
    then show ?thesis using as True by (simp add: bs)
  next
    case False
    then have "map_of vs v = Some bs" using m by (simp add: m')
    then show ?thesis using vs by simp
  qed
  have eq: "add_archive a pv = AList.update (provider a) vs' pv"
    by (simp add: add_archive_def Let_def vs_def as_def vs'_def)
  have mp: "map_of (add_archive a pv) = (map_of pv)(provider a \<mapsto> vs')"
    by (simp add: eq update_conv')
  show ?thesis
  proof (rule wf_pvI)
    show "distinct (map fst (add_archive a pv))"
      using d by (simp add: eq distinct_update)
  next
    fix p ws assume m: "map_of (add_archive a pv) p = Some ws"
    show "distinct (map fst ws) \<and> ws \<noteq> [] \<and> (\<forall>v bs. map_of ws v = Some bs \<longrightarrow>
           distinct bs \<and> bs \<noteq> [] \<and> (\<forall>a \<in> set bs. provider a = p \<and> version a = v))"
    proof (cases "p = provider a")
      case True
      then have "ws = vs'" using m by (simp add: mp)
      then show ?thesis using vs'1 vs'2 vs'3 True by simp
    next
      case False
      then have "map_of pv p = Some ws" using m by (simp add: mp)
      then show ?thesis using assms by (rule wf_pvD [rotated])
    qed
  qed
qed

lemma wf_pv_gather: "wf_pv pv \<Longrightarrow> wf_pv (gather parse xs pv)"
  by (induction xs arbitrary: pv) (auto simp: wf_pv_add_archive split: option.splits)

lemma members_gather: "members (gather parse xs pv) = members pv \<union> parsed parse xs"
  by (induction xs arbitrary: pv) (auto simp: members_add_archive parsed_def split: option.splits)

lemma wf_pv_Nil: "wf_pv []"
  by (simp add: wf_pv_def)

lemma members_Nil: "members [] = {}"
  by (simp add: members_def group_def)

section \<open>What grouping produces, and independence of the input order\<close>

lemma group_Some:
  assumes "a \<in> set (group pv p v)"
  obtains vs as where "map_of pv p = Some vs" "map_of vs v = Some as" "group pv p v = as"
proof -
  from assms have ne: "group pv p v \<noteq> []" by auto
  then obtain vs where vs: "map_of pv p = Some vs"
    by (cases "map_of pv p") (auto simp: group_def getitem_def)
  with ne obtain as where as: "map_of vs v = Some as"
    by (cases "map_of vs v") (auto simp: group_def getitem_def)
  from vs as have "group pv p v = as" by (simp add: group_def getitem_def)
  with vs as show ?thesis using that by blast
qed

lemma group_wf:
  assumes "wf_pv pv" "a \<in> set (group pv p v)"
  shows "provider a = p \<and> version a = v"
proof -
  from assms(2) obtain vs as where m: "map_of pv p = Some vs" "map_of vs v = Some as"
    "group pv p v = as" by (rule group_Some)
  from wf_pvD [OF assms(1) m(1)] m(2) have "\<forall>a \<in> set as. provider a = p \<and> version a = v"
    by simp
  with assms(2) m(3) show ?thesis by simp
qed

lemma set_group: "wf_pv pv \<Longrightarrow> set (group pv p v) = {a \<in> members pv. provider a = p \<and> version a = v}"
  by (auto simp: members_def dest: group_wf)

lemma distinct_group: "wf_pv pv \<Longrightarrow> distinct (group pv p v)"
proof (cases "group pv p v = []")
  case True
  then show ?thesis by simp
next
  case False
  assume wf: "wf_pv pv"
  from False obtain a where "a \<in> set (group pv p v)" by (cases "group pv p v") auto
  then obtain vs as where m: "map_of pv p = Some vs" "map_of vs v = Some as"
    "group pv p v = as" by (rule group_Some)
  from wf_pvD [OF wf m(1)] m(2) have "distinct as" by simp
  with m(3) show ?thesis by simp
qed

lemma keys_map_ofE:
  assumes "k \<in> set (map fst d)"
  obtains v where "map_of d k = Some v"
proof (cases "map_of d k")
  case None
  then have "k \<notin> fst ` set d" using map_of_eq_None_iff [of d k] by blast
  with assms show ?thesis by simp
next
  case (Some v)
  then show ?thesis by (rule that)
qed

lemma map_of_Some_key: "map_of d k = Some v \<Longrightarrow> k \<in> set (map fst d)"
  by (auto dest!: map_of_SomeD intro: rev_image_eqI)

lemma versions_keys:
  assumes "wf_pv pv"
  shows "set (map fst (getitem pv p [])) = version ` {a \<in> members pv. provider a = p}"
proof (intro set_eqI iffI)
  fix v assume "v \<in> set (map fst (getitem pv p []))"
  then obtain as where as: "map_of (getitem pv p []) v = Some as" by (rule keys_map_ofE)
  then obtain vs where vs: "map_of pv p = Some vs" "getitem pv p [] = vs"
    by (cases "map_of pv p") (auto simp: getitem_def)
  from wf_pvD [OF assms vs(1)] as vs(2) have "as \<noteq> []" by simp
  then obtain a where a: "a \<in> set as" by (cases as) auto
  have g: "group pv p v = as" using as vs by (simp add: group_def getitem_def)
  with a have "a \<in> set (group pv p v)" by simp
  then have "a \<in> members pv \<and> provider a = p \<and> version a = v"
    using set_group [OF assms, of p v] by simp
  then show "v \<in> version ` {a \<in> members pv. provider a = p}" by auto
next
  fix v assume "v \<in> version ` {a \<in> members pv. provider a = p}"
  then obtain a where a: "a \<in> members pv" "provider a = p" "version a = v" by auto
  then have "a \<in> set (group pv p v)" by (simp add: members_def)
  then obtain vs as where m: "map_of pv p = Some vs" "map_of vs v = Some as"
    by (rule group_Some)
  then have "map_of (getitem pv p []) v = Some as" by (simp add: getitem_def)
  then show "v \<in> set (map fst (getitem pv p []))" by (rule map_of_Some_key)
qed

lemma distinct_versions_keys:
  assumes "wf_pv pv"
  shows "distinct (map fst (getitem pv p []))"
proof (cases "map_of pv p")
  case None
  then show ?thesis by (simp add: getitem_def)
next
  case (Some vs)
  with wf_pvD [OF assms Some] show ?thesis by (simp add: getitem_def)
qed

lemma providers_keys:
  assumes "wf_pv pv"
  shows "set (map fst pv) = provider ` members pv"
proof (intro set_eqI iffI)
  fix p assume "p \<in> set (map fst pv)"
  then obtain vs where vs: "map_of pv p = Some vs" by (rule keys_map_ofE)
  from wf_pvD [OF assms vs] have "vs \<noteq> []" by simp
  then obtain v where "v \<in> set (map fst vs)" by (cases vs) auto
  moreover have "getitem pv p [] = vs" using vs by (simp add: getitem_def)
  ultimately have "v \<in> version ` {a \<in> members pv. provider a = p}"
    using versions_keys [OF assms, of p] by simp
  then show "p \<in> provider ` members pv" by auto
next
  fix p assume "p \<in> provider ` members pv"
  then obtain a where a: "a \<in> members pv" "provider a = p" by auto
  then have "a \<in> set (group pv p (version a))" by (auto simp: members_def)
  then obtain vs where "map_of pv p = Some vs" by (rule group_Some)
  then show "p \<in> set (map fst pv)" by (rule map_of_Some_key)
qed

lemma distinct_providers_keys: "wf_pv pv \<Longrightarrow> distinct (map fst pv)"
  by (simp add: wf_pv_def)

lemma sort_cong_set:
  fixes xs ys :: "'a::linorder list"
  assumes "distinct xs" "distinct ys" "set xs = set ys"
  shows "sort xs = sort ys"
  using assms by (intro sorted_distinct_set_unique) simp_all

lemma inj_astuple: "inj astuple"
proof (rule injI)
  fix a b :: archive
  assume "astuple a = astuple b"
  then show "a = b" by (cases a, cases b) (simp add: astuple_def)
qed

lemma inj_on_astuple: "inj_on astuple A"
  using inj_astuple by (rule inj_on_subset) simp

lemma sort_key_astuple_cong:
  assumes "distinct xs" "distinct ys" "set xs = set ys"
  shows "sort_key astuple xs = sort_key astuple ys"
proof (rule map_sorted_distinct_set_unique [where f = astuple])
  show "inj_on astuple (set (sort_key astuple xs) \<union> set (sort_key astuple ys))"
    by (rule inj_on_astuple)
  show "sorted (map astuple (sort_key astuple xs))" "sorted (map astuple (sort_key astuple ys))"
    by simp_all
  show "distinct (map astuple (sort_key astuple xs))"
    using assms(1) by (simp add: distinct_map inj_on_astuple)
  show "distinct (map astuple (sort_key astuple ys))"
    using assms(2) by (simp add: distinct_map inj_on_astuple)
  show "set (sort_key astuple xs) = set (sort_key astuple ys)"
    using assms(3) by simp
qed

lemma versions_loop_cong:
  assumes "\<And>v. v \<in> set vs \<Longrightarrow>
      sort_key astuple (getitem versions v []) = sort_key astuple (getitem versions' v [])"
  shows "versions_loop copy url b pre versions vs idx w =
         versions_loop copy url b pre versions' vs idx w"
  using assms by (induction vs arbitrary: idx w) (auto split: sum.splits)

lemma providers_loop_cong:
  assumes "\<And>p. p \<in> set ps \<Longrightarrow>
      sort (map fst (getitem pv p [])) = sort (map fst (getitem pv' p []))"
    and "\<And>p v. p \<in> set ps \<Longrightarrow>
      sort_key astuple (group pv p v) = sort_key astuple (group pv' p v)"
  shows "providers_loop copy url b pre pv ps w = providers_loop copy url b pre pv' ps w"
  using assms
proof (induction ps arbitrary: w)
  case Nil
  show ?case by simp
next
  case (Cons p ps)
  have 1: "sort (map fst (getitem pv p [])) = sort (map fst (getitem pv' p []))"
    using Cons.prems(1) by simp
  have 2: "versions_loop copy url b pre (getitem pv p []) vs [] w =
        versions_loop copy url b pre (getitem pv' p []) vs [] w" for vs
    using Cons.prems(2) [of p] by (intro versions_loop_cong) (simp add: group_def)
  have 3: "providers_loop copy url b pre pv ps w' = providers_loop copy url b pre pv' ps w'" for w'
    using Cons.prems by (intro Cons.IH) simp_all
  show ?case by (simp add: Let_def 1 2 3 split: sum.splits)
qed

lemma wf_gather: "wf_pv (gather parse xs [])"
  by (simp add: wf_pv_gather wf_pv_Nil)

lemma members_gather_Nil: "members (gather parse xs []) = parsed parse xs"
  by (simp add: members_gather members_Nil)

lemma gather_cong:
  assumes "parsed parse xs = parsed parse ys"
  shows "providers_loop copy url b pre (gather parse xs []) (sort (map fst (gather parse xs []))) w =
         providers_loop copy url b pre (gather parse ys []) (sort (map fst (gather parse ys []))) w"
proof -
  let ?pv = "gather parse xs []" and ?pv' = "gather parse ys []"
  have m: "members ?pv = members ?pv'" using assms by (simp add: members_gather_Nil)
  have k: "sort (map fst ?pv) = sort (map fst ?pv')"
    by (intro sort_cong_set) (simp_all only: distinct_providers_keys wf_gather providers_keys m)
  have v: "sort (map fst (getitem ?pv p [])) = sort (map fst (getitem ?pv' p []))" for p
    by (intro sort_cong_set) (simp_all only: distinct_versions_keys wf_gather versions_keys m)
  have g: "sort_key astuple (group ?pv p v) = sort_key astuple (group ?pv' p v)" for p v
    by (intro sort_key_astuple_cong) (simp_all only: distinct_group wf_gather set_group m)
  show ?thesis unfolding k by (rule providers_loop_cong) (simp_all only: v g)
qed

lemma run_local_cong:
  "set xs = set ys \<Longrightarrow> run_local env b pre xs w = run_local env b pre ys w"
  unfolding run_local_def Let_def by (rule gather_cong) (simp add: parsed_def)

lemma run_remote_cong:
  "set xs = set ys \<Longrightarrow> run_remote env rb b pre xs w = run_remote env rb b pre ys w"
  unfolding run_remote_def Let_def by (rule gather_cong) (simp add: parsed_def)

section \<open>The loops\<close>

subsection \<open>Invariants of the loops\<close>

lemma archives_loop_inv:
  assumes "archives_loop copy url as vd w = Inr (vd', w')" and "I w"
    and "\<And>a w r w1. a \<in> set as \<Longrightarrow> I w \<Longrightarrow> copy a w = Inr (r, w1) \<Longrightarrow> I w1"
  shows "I w'"
  using assms
proof (induction as arbitrary: vd w)
  case Nil
  then show ?case by simp
next
  case (Cons a as)
  from Cons.prems(1) obtain h c w1 where step: "copy a w = Inr ((h, c), w1)"
    and rest: "archives_loop copy url as
        (AList.update (os_arch a) (archive_entry h (url a)) vd) w1 = Inr (vd', w')"
    by (auto split: sum.splits)
  have "I w1" using Cons.prems(3) [of a w "(h, c)" w1] Cons.prems(2) step by simp
  then show ?case
  proof (rule Cons.IH [OF rest])
    fix a' w r w1 assume "a' \<in> set as" "I w" "copy a' w = Inr (r, w1)"
    then show "I w1" using Cons.prems(3) [of a' w r w1] by simp
  qed
qed

lemma versions_loop_inv:
  assumes "versions_loop copy url b pre versions vs idx w = Inr (idx', w')" and "I w"
    and "\<And>v a w r w1. v \<in> set vs \<Longrightarrow> a \<in> set (getitem versions v []) \<Longrightarrow> I w \<Longrightarrow>
           copy a w = Inr (r, w1) \<Longrightarrow> I w1"
    and "\<And>v c w. v \<in> set vs \<Longrightarrow> I w \<Longrightarrow>
           I (put_object (b, pre @ v @ ''.json'') c ''application/json'' w)"
  shows "I w'"
  using assms
proof (induction vs arbitrary: idx w)
  case Nil
  then show ?case by simp
next
  case (Cons v vs)
  from Cons.prems(1) obtain vd w1 where
    inner: "archives_loop copy url (sort_key astuple (getitem versions v [])) [] w = Inr (vd, w1)"
    and rest: "versions_loop copy url b pre versions vs (AList.update v (JObject []) idx)
        (put_object (b, pre @ v @ ''.json'') (dumps (JObject [(''archives'', JObject vd)]))
           ''application/json'' w1) = Inr (idx', w')"
    by (auto split: sum.splits)
  have "I w1"
    using inner Cons.prems(2)
  proof (rule archives_loop_inv)
    fix a w r w1 assume "a \<in> set (sort_key astuple (getitem versions v []))" "I w"
      "copy a w = Inr (r, w1)"
    then show "I w1" using Cons.prems(3) [of v a w r w1] by simp
  qed
  then have "I (put_object (b, pre @ v @ ''.json'') (dumps (JObject [(''archives'', JObject vd)]))
           ''application/json'' w1)"
    using Cons.prems(4) [of v w1] by simp
  then show ?case
  proof (rule Cons.IH [OF rest])
    fix v' a w r w1 assume "v' \<in> set vs" "a \<in> set (getitem versions v' [])" "I w"
      "copy a w = Inr (r, w1)"
    then show "I w1" using Cons.prems(3) [of v' a w r w1] by simp
  next
    fix v' c w assume "v' \<in> set vs" "I w"
    then show "I (put_object (b, pre @ v' @ ''.json'') c ''application/json'' w)"
      using Cons.prems(4) [of v' w c] by simp
  qed
qed

lemma providers_loop_inv:
  assumes "providers_loop copy url b pre pv ps w = Inr w'" and "I w"
    and "\<And>p v a w r w1. p \<in> set ps \<Longrightarrow> a \<in> set (group pv p v) \<Longrightarrow> I w \<Longrightarrow>
           copy a w = Inr (r, w1) \<Longrightarrow> I w1"
    and "\<And>k c w. I w \<Longrightarrow> I (put_object (b, pre @ k @ ''.json'') c ''application/json'' w)"
  shows "I w'"
  using assms
proof (induction ps arbitrary: w)
  case Nil
  then show ?case by simp
next
  case (Cons p ps)
  from Cons.prems(1) obtain idx w1 where
    inner: "versions_loop copy url b pre (getitem pv p []) (sort (map fst (getitem pv p []))) [] w
        = Inr (idx, w1)"
    and rest: "providers_loop copy url b pre pv ps
        (put_object (b, pre @ ''index.json'') (dumps (JObject [(''versions'', JObject idx)]))
           ''application/json'' w1) = Inr w'"
    by (auto simp: Let_def split: sum.splits)
  have "I w1"
    using inner Cons.prems(2)
  proof (rule versions_loop_inv)
    fix v a w r w1 assume "a \<in> set (getitem (getitem pv p []) v [])" "I w" "copy a w = Inr (r, w1)"
    then show "I w1" using Cons.prems(3) [of p a v w r w1] by (simp add: group_def)
  next
    fix v c w assume "I w"
    then show "I (put_object (b, pre @ v @ ''.json'') c ''application/json'' w)"
      by (rule Cons.prems(4))
  qed
  then have "I (put_object (b, pre @ ''index'' @ ''.json'') (dumps (JObject [(''versions'', JObject idx)]))
           ''application/json'' w1)"
    by (rule Cons.prems(4))
  then have "I (put_object (b, pre @ ''index.json'') (dumps (JObject [(''versions'', JObject idx)]))
           ''application/json'' w1)"
    by simp
  then show ?case
  proof (rule Cons.IH [OF rest])
    fix p' v a w r w1 assume "p' \<in> set ps" "a \<in> set (group pv p' v)" "I w"
      "copy a w = Inr (r, w1)"
    then show "I w1" using Cons.prems(3) [of p' a v w r w1] by simp
  next
    fix k c w assume "I w"
    then show "I (put_object (b, pre @ k @ ''.json'') c ''application/json'' w)"
      by (rule Cons.prems(4))
  qed
qed

subsection \<open>The documents written, from the fingerprints returned\<close>

lemma puts_put_object [simp]:
  "puts (log (put_object k c ct w)) = puts (log w) @ [(k, c)]"
  by (simp add: put_object_def)

lemma update_fresh: "k \<notin> fst ` set d \<Longrightarrow> AList.update k v d = d @ [(k, v)]"
  by (induction d) auto

lemma fold_update_fresh:
  "distinct vs \<Longrightarrow> set vs \<inter> fst ` set d = {} \<Longrightarrow>
     fold (\<lambda>v. AList.update v c) vs d = d @ map (\<lambda>v. (v, c)) vs"
proof (induction vs arbitrary: d)
  case Nil
  show ?case by simp
next
  case (Cons v vs)
  have 1: "AList.update v c d = d @ [(v, c)]" using Cons.prems(2) by (intro update_fresh) auto
  have 2: "set vs \<inter> fst ` set (d @ [(v, c)]) = {}" using Cons.prems by auto
  show ?case using Cons.IH [OF _ 2] Cons.prems(1) by (simp add: 1)
qed

lemma archives_loop_docs:
  assumes "archives_loop copy url as vd w = Inr (vd', w')"
    and "\<And>a w h c w1. a \<in> set as \<Longrightarrow> copy a w = Inr ((h, c), w1) \<Longrightarrow>
           S w w1 \<and> (\<forall>w2. S w1 w2 \<longrightarrow> h = fp w2 a)"
    and "\<And>w. S w w" and "\<And>w1 w2 w3. S w1 w2 \<Longrightarrow> S w2 w3 \<Longrightarrow> S w1 w3"
  shows "S w w' \<and> (\<forall>w2. S w' w2 \<longrightarrow>
           vd' = fold (\<lambda>a. AList.update (os_arch a) (archive_entry (fp w2 a) (url a))) as vd)"
  using assms(1,2)
proof (induction as arbitrary: vd w)
  case Nil
  then show ?case using assms(3) by simp
next
  case (Cons a as)
  from Cons.prems(1) obtain h c w1 where step: "copy a w = Inr ((h, c), w1)"
    and rest: "archives_loop copy url as
        (AList.update (os_arch a) (archive_entry h (url a)) vd) w1 = Inr (vd', w')"
    by (auto split: sum.splits)
  have s1: "S w w1" and h: "\<And>w2. S w1 w2 \<Longrightarrow> h = fp w2 a"
    using Cons.prems(2) [of a w h c w1] step by simp_all
  have ih: "S w1 w' \<and> (\<forall>w2. S w' w2 \<longrightarrow>
           vd' = fold (\<lambda>a. AList.update (os_arch a) (archive_entry (fp w2 a) (url a))) as
                   (AList.update (os_arch a) (archive_entry h (url a)) vd))"
  proof (rule Cons.IH [OF rest])
    fix a' w h c w1 assume "a' \<in> set as" "copy a' w = Inr ((h, c), w1)"
    then show "S w w1 \<and> (\<forall>w2. S w1 w2 \<longrightarrow> h = fp w2 a')"
      using Cons.prems(2) [of a' w h c w1] by simp
  qed
  show ?case
  proof (intro conjI allI impI)
    show "S w w'" using s1 ih assms(4) by blast
  next
    fix w2 assume w2: "S w' w2"
    then have "S w1 w2" using ih assms(4) by blast
    then have "h = fp w2 a" by (rule h)
    then show "vd' = fold (\<lambda>a. AList.update (os_arch a) (archive_entry (fp w2 a) (url a)))
        (a # as) vd"
      using ih w2 by simp
  qed
qed

lemma archives_loop_quiet:
  assumes "archives_loop copy url as vd w = Inr (vd', w')"
    and "\<And>a w r w1. a \<in> set as \<Longrightarrow> copy a w = Inr (r, w1) \<Longrightarrow> puts (log w1) = puts (log w)"
  shows "puts (log w') = puts (log w)"
proof -
  have "puts (log w') = puts (log w)"
    using assms(1)
  proof (rule archives_loop_inv [where I = "\<lambda>x. puts (log x) = puts (log w)"])
    show "puts (log w) = puts (log w)" by simp
  next
    fix a w0 r w1 assume "a \<in> set as" "puts (log w0) = puts (log w)" "copy a w0 = Inr (r, w1)"
    then show "puts (log w1) = puts (log w)" using assms(2) [of a w0 r w1] by simp
  qed
  then show ?thesis .
qed

lemma versions_loop_docs:
  assumes "versions_loop copy url b pre versions vs idx w = Inr (idx', w')"
    and "\<And>v a w h c w1. v \<in> set vs \<Longrightarrow> a \<in> set (getitem versions v []) \<Longrightarrow>
           copy a w = Inr ((h, c), w1) \<Longrightarrow>
           S w w1 \<and> (\<forall>w2. S w1 w2 \<longrightarrow> h = fp w2 a) \<and> puts (log w1) = puts (log w)"
    and "\<And>w. S w w" and "\<And>w1 w2 w3. S w1 w2 \<Longrightarrow> S w2 w3 \<Longrightarrow> S w1 w3"
    and "\<And>k c w. S w (put_object (b, pre @ k @ ''.json'') c ''application/json'' w)"
  shows "S w w' \<and> idx' = fold (\<lambda>v. AList.update v (JObject [])) vs idx \<and>
         (\<forall>w2. S w' w2 \<longrightarrow> puts (log w') = puts (log w) @
            map (\<lambda>v. ((b, pre @ v @ ''.json''),
                       version_doc (fp w2) url (sort_key astuple (getitem versions v [])))) vs)"
  using assms(1,2)
proof (induction vs arbitrary: idx w)
  case Nil
  then show ?case using assms(3) by simp
next
  case (Cons v vs)
  let ?as = "sort_key astuple (getitem versions v [])"
  from Cons.prems(1) obtain vd w1 where
    inner: "archives_loop copy url ?as [] w = Inr (vd, w1)"
    and rest: "versions_loop copy url b pre versions vs (AList.update v (JObject []) idx)
        (put_object (b, pre @ v @ ''.json'') (dumps (JObject [(''archives'', JObject vd)]))
           ''application/json'' w1) = Inr (idx', w')"
    by (auto split: sum.splits)
  let ?w2 = "put_object (b, pre @ v @ ''.json'') (dumps (JObject [(''archives'', JObject vd)]))
           ''application/json'' w1"
  have a1: "S w w1 \<and> (\<forall>w2. S w1 w2 \<longrightarrow>
           vd = fold (\<lambda>a. AList.update (os_arch a) (archive_entry (fp w2 a) (url a))) ?as [])"
    using inner
  proof (rule archives_loop_docs)
    fix a w h c w1 assume "a \<in> set ?as" "copy a w = Inr ((h, c), w1)"
    then show "S w w1 \<and> (\<forall>w2. S w1 w2 \<longrightarrow> h = fp w2 a)"
      using Cons.prems(2) [of v a w h c w1] by simp
  qed (fact assms(3), fact assms(4))
  have q1: "puts (log w1) = puts (log w)"
    using inner
  proof (rule archives_loop_quiet)
    fix a w r w1 assume "a \<in> set ?as" "copy a w = Inr (r, w1)"
    then show "puts (log w1) = puts (log w)"
      using Cons.prems(2) [of v a w "fst r" "snd r" w1] by simp
  qed
  have s12: "S w1 ?w2" by (rule assms(5))
  have ih: "S ?w2 w' \<and> idx' = fold (\<lambda>v. AList.update v (JObject [])) vs (AList.update v (JObject []) idx) \<and>
         (\<forall>w2. S w' w2 \<longrightarrow> puts (log w') = puts (log ?w2) @
            map (\<lambda>v. ((b, pre @ v @ ''.json''),
                       version_doc (fp w2) url (sort_key astuple (getitem versions v [])))) vs)"
  proof (rule Cons.IH [OF rest])
    fix v' a w h c w1 assume "v' \<in> set vs" "a \<in> set (getitem versions v' [])"
      "copy a w = Inr ((h, c), w1)"
    then show "S w w1 \<and> (\<forall>w2. S w1 w2 \<longrightarrow> h = fp w2 a) \<and> puts (log w1) = puts (log w)"
      using Cons.prems(2) [of v' a w h c w1] by simp
  qed
  have sw: "S w w'" using a1 s12 ih assms(4) by blast
  show ?case
  proof (intro conjI allI impI)
    show "S w w'" by (rule sw)
    show "idx' = fold (\<lambda>v. AList.update v (JObject [])) (v # vs) idx" using ih by simp
  next
    fix w2 assume w2: "S w' w2"
    have "S w1 w2" using s12 ih w2 assms(4) by blast
    then have vd: "vd = fold (\<lambda>a. AList.update (os_arch a) (archive_entry (fp w2 a) (url a))) ?as []"
      using a1 by simp
    have "puts (log w') = puts (log ?w2) @
            map (\<lambda>v. ((b, pre @ v @ ''.json''),
                       version_doc (fp w2) url (sort_key astuple (getitem versions v [])))) vs"
      using ih w2 by simp
    moreover have "puts (log ?w2) = puts (log w) @
        [((b, pre @ v @ ''.json''), version_doc (fp w2) url ?as)]"
      unfolding version_doc_def vd [symmetric] by (simp add: q1)
    ultimately show "puts (log w') = puts (log w) @
            map (\<lambda>v. ((b, pre @ v @ ''.json''),
                       version_doc (fp w2) url (sort_key astuple (getitem versions v []))))
              (v # vs)"
      by simp
  qed
qed

lemma providers_loop_docs:
  assumes "providers_loop copy url b pre pv ps w = Inr w'"
    and "\<And>p v a w h c w1. p \<in> set ps \<Longrightarrow> a \<in> set (group pv p v) \<Longrightarrow>
           copy a w = Inr ((h, c), w1) \<Longrightarrow>
           S w w1 \<and> (\<forall>w2. S w1 w2 \<longrightarrow> h = fp w2 a) \<and> puts (log w1) = puts (log w)"
    and "\<And>w. S w w" and "\<And>w1 w2 w3. S w1 w2 \<Longrightarrow> S w2 w3 \<Longrightarrow> S w1 w3"
    and "\<And>k c w. S w (put_object (b, pre @ k @ ''.json'') c ''application/json'' w)"
    and "wf_pv pv"
  shows "S w w' \<and>
         (\<forall>w2. S w' w2 \<longrightarrow> puts (log w') = puts (log w) @
            concat (map (provider_docs (fp w2) url b pre pv) ps))"
  using assms(1,2)
proof (induction ps arbitrary: w)
  case Nil
  then show ?case using assms(3) by simp
next
  case (Cons p ps)
  let ?vs = "sort (map fst (getitem pv p []))"
  from Cons.prems(1) obtain idx w1 where
    inner: "versions_loop copy url b pre (getitem pv p []) ?vs [] w = Inr (idx, w1)"
    and rest: "providers_loop copy url b pre pv ps
        (put_object (b, pre @ ''index.json'') (dumps (JObject [(''versions'', JObject idx)]))
           ''application/json'' w1) = Inr w'"
    by (auto simp: Let_def split: sum.splits)
  let ?w2 = "put_object (b, pre @ ''index.json'') (dumps (JObject [(''versions'', JObject idx)]))
           ''application/json'' w1"
  have v1: "S w w1 \<and> idx = fold (\<lambda>v. AList.update v (JObject [])) ?vs [] \<and>
         (\<forall>w2. S w1 w2 \<longrightarrow> puts (log w1) = puts (log w) @
            map (\<lambda>v. ((b, pre @ v @ ''.json''),
                  version_doc (fp w2) url (sort_key astuple (getitem (getitem pv p []) v [])))) ?vs)"
    using inner
  proof (rule versions_loop_docs)
    fix v a w h c w1 assume "a \<in> set (getitem (getitem pv p []) v [])" "copy a w = Inr ((h, c), w1)"
    then show "S w w1 \<and> (\<forall>w2. S w1 w2 \<longrightarrow> h = fp w2 a) \<and> puts (log w1) = puts (log w)"
      using Cons.prems(2) [of p a v w h c w1] by (simp add: group_def)
  qed (fact assms(3), fact assms(4), fact assms(5))
  have "distinct ?vs" using assms(6) by (simp add: distinct_versions_keys)
  then have idx: "idx = map (\<lambda>v. (v, JObject [])) ?vs"
    using v1 by (simp add: fold_update_fresh)
  have "S w1 (put_object (b, pre @ ''index'' @ ''.json'')
      (dumps (JObject [(''versions'', JObject idx)])) ''application/json'' w1)"
    by (rule assms(5))
  then have s12: "S w1 ?w2" by simp
  have ih: "S ?w2 w' \<and>
         (\<forall>w2. S w' w2 \<longrightarrow> puts (log w') = puts (log ?w2) @
            concat (map (provider_docs (fp w2) url b pre pv) ps))"
  proof (rule Cons.IH [OF rest])
    fix p' v a w h c w1 assume "p' \<in> set ps" "a \<in> set (group pv p' v)"
      "copy a w = Inr ((h, c), w1)"
    then show "S w w1 \<and> (\<forall>w2. S w1 w2 \<longrightarrow> h = fp w2 a) \<and> puts (log w1) = puts (log w)"
      using Cons.prems(2) [of p' a v w h c w1] by simp
  qed
  have sw: "S w w'" using v1 s12 ih assms(4) by blast
  show ?case
  proof (intro conjI allI impI)
    show "S w w'" by (rule sw)
  next
    fix w2 assume w2: "S w' w2"
    have "S w1 w2" using s12 ih w2 assms(4) by blast
    then have "puts (log w1) = puts (log w) @
            map (\<lambda>v. ((b, pre @ v @ ''.json''),
                  version_doc (fp w2) url (sort_key astuple (getitem (getitem pv p []) v [])))) ?vs"
      using v1 by simp
    then have "puts (log ?w2) = puts (log w) @ provider_docs (fp w2) url b pre pv p"
      by (simp add: provider_docs_def Let_def group_def index_doc_def idx)
    moreover have "puts (log w') = puts (log ?w2) @
            concat (map (provider_docs (fp w2) url b pre pv) ps)"
      using ih w2 by simp
    ultimately show "puts (log w') = puts (log w) @
            concat (map (provider_docs (fp w2) url b pre pv) (p # ps))"
      by simp
  qed
qed

subsection \<open>The shape of the documents, whatever the fingerprints\<close>

lemma set_update_subset: "set (AList.update k v d) \<subseteq> insert (k, v) (set d)"
  by (induction d) auto

lemma keys_update: "set (map fst (AList.update k v d)) = insert k (set (map fst d))"
  by (auto simp: update_keys)

lemma archives_loop_shape:
  assumes "archives_loop copy url as vd w = Inr (vd', w')"
  shows "set (map fst vd') = set (map fst vd) \<union> os_arch ` set as \<and>
         (distinct (map fst vd) \<longrightarrow> distinct (map fst vd')) \<and>
         (\<forall>(k, e) \<in> set vd'. (k, e) \<in> set vd \<or>
            (\<exists>a \<in> set as. \<exists>h. k = os_arch a \<and> e = archive_entry h (url a))) \<and>
         (\<forall>a \<in> set as. \<exists>w0 r. copy a w0 = Inr r)"
  using assms
proof (induction as arbitrary: vd w)
  case Nil
  then show ?case by auto
next
  case (Cons a as)
  from Cons.prems(1) obtain h c w1 where step: "copy a w = Inr ((h, c), w1)"
    and rest: "archives_loop copy url as
        (AList.update (os_arch a) (archive_entry h (url a)) vd) w1 = Inr (vd', w')"
    by (auto split: sum.splits)
  let ?vd1 = "AList.update (os_arch a) (archive_entry h (url a)) vd"
  note ih = Cons.IH [OF rest]
  have 1: "set (map fst vd') = set (map fst vd) \<union> os_arch ` set (a # as)"
    using ih by (simp add: keys_update del: set_map)
  have 2: "distinct (map fst vd) \<longrightarrow> distinct (map fst vd')"
    using ih by (simp add: distinct_update)
  have 3: "\<forall>(k, e) \<in> set vd'. (k, e) \<in> set vd \<or>
            (\<exists>a' \<in> set (a # as). \<exists>h. k = os_arch a' \<and> e = archive_entry h (url a'))"
  proof (intro ballI, clarify)
    fix k e assume ke: "(k, e) \<in> set vd'" and n: "\<not> (\<exists>a' \<in> set (a # as). \<exists>h. k = os_arch a' \<and> e = archive_entry h (url a'))"
    from ih ke have "(k, e) \<in> set ?vd1 \<or> (\<exists>a' \<in> set as. \<exists>h. k = os_arch a' \<and> e = archive_entry h (url a'))"
      by blast
    with n have "(k, e) \<in> set ?vd1" by auto
    then have "(k, e) = (os_arch a, archive_entry h (url a)) \<or> (k, e) \<in> set vd"
      using set_update_subset [of "os_arch a" "archive_entry h (url a)" vd] by blast
    with n show "(k, e) \<in> set vd" by auto
  qed
  have 4: "\<forall>a' \<in> set (a # as). \<exists>w0 r. copy a' w0 = Inr r"
    using ih step by auto
  show ?case using 1 2 3 4 by blast
qed

lemma archives_loop_version_doc:
  assumes "archives_loop copy url as [] w = Inr (vd, w')"
  shows "is_version_doc url (set as) (dumps (JObject [(''archives'', JObject vd)]))"
proof -
  from archives_loop_shape [OF assms]
  have "set (map fst vd) = os_arch ` set as" "distinct (map fst vd)"
    "\<forall>(k, e) \<in> set vd. \<exists>a \<in> set as. \<exists>h. k = os_arch a \<and> e = archive_entry h (url a)"
    by auto
  then show ?thesis unfolding is_version_doc_def by blast
qed

lemma versions_loop_shape:
  assumes "versions_loop copy url b pre versions vs idx w = Inr (idx', w')"
    and "\<And>v a w r w1. v \<in> set vs \<Longrightarrow> a \<in> set (getitem versions v []) \<Longrightarrow>
           copy a w = Inr (r, w1) \<Longrightarrow> puts (log w1) = puts (log w)"
  shows "(\<exists>docs. puts (log w') = puts (log w) @ docs \<and>
            list_all2 (\<lambda>v d. fst d = (b, pre @ v @ ''.json'') \<and>
                 is_version_doc url (set (getitem versions v [])) (snd d)) vs docs) \<and>
         idx' = fold (\<lambda>v. AList.update v (JObject [])) vs idx \<and>
         (\<forall>v \<in> set vs. \<forall>a \<in> set (getitem versions v []). \<exists>w0 r. copy a w0 = Inr r)"
  using assms
proof (induction vs arbitrary: idx w)
  case Nil
  then show ?case by simp
next
  case (Cons v vs)
  let ?as = "sort_key astuple (getitem versions v [])"
  from Cons.prems(1) obtain vd w1 where
    inner: "archives_loop copy url ?as [] w = Inr (vd, w1)"
    and rest: "versions_loop copy url b pre versions vs (AList.update v (JObject []) idx)
        (put_object (b, pre @ v @ ''.json'') (dumps (JObject [(''archives'', JObject vd)]))
           ''application/json'' w1) = Inr (idx', w')"
    by (auto split: sum.splits)
  let ?doc = "dumps (JObject [(''archives'', JObject vd)])"
  have d: "is_version_doc url (set (getitem versions v [])) ?doc"
    using archives_loop_version_doc [OF inner] by simp
  have r: "\<forall>a \<in> set (getitem versions v []). \<exists>w0 r. copy a w0 = Inr r"
    using archives_loop_shape [OF inner] by simp
  have q1: "puts (log w1) = puts (log w)"
    using inner
  proof (rule archives_loop_quiet)
    fix a w r w1 assume "a \<in> set ?as" "copy a w = Inr (r, w1)"
    then show "puts (log w1) = puts (log w)" using Cons.prems(2) [of v a w r w1] by simp
  qed
  have ih: "(\<exists>docs. puts (log w') = puts (log w) @ [((b, pre @ v @ ''.json''), ?doc)] @ docs \<and>
            list_all2 (\<lambda>v d. fst d = (b, pre @ v @ ''.json'') \<and>
                 is_version_doc url (set (getitem versions v [])) (snd d)) vs docs) \<and>
         idx' = fold (\<lambda>v. AList.update v (JObject [])) vs (AList.update v (JObject []) idx) \<and>
         (\<forall>v \<in> set vs. \<forall>a \<in> set (getitem versions v []). \<exists>w0 r. copy a w0 = Inr r)"
  proof -
    have "(\<exists>docs. puts (log w') =
               puts (log (put_object (b, pre @ v @ ''.json'') ?doc ''application/json'' w1)) @ docs \<and>
            list_all2 (\<lambda>v d. fst d = (b, pre @ v @ ''.json'') \<and>
                 is_version_doc url (set (getitem versions v [])) (snd d)) vs docs) \<and>
         idx' = fold (\<lambda>v. AList.update v (JObject [])) vs (AList.update v (JObject []) idx) \<and>
         (\<forall>v \<in> set vs. \<forall>a \<in> set (getitem versions v []). \<exists>w0 r. copy a w0 = Inr r)"
    proof (rule Cons.IH [OF rest])
      fix v' a w r w1 assume "v' \<in> set vs" "a \<in> set (getitem versions v' [])"
        "copy a w = Inr (r, w1)"
      then show "puts (log w1) = puts (log w)" using Cons.prems(2) [of v' a w r w1] by simp
    qed
    then show ?thesis by (simp add: q1)
  qed
  then obtain docs where docs: "puts (log w') = puts (log w) @ [((b, pre @ v @ ''.json''), ?doc)] @ docs"
    "list_all2 (\<lambda>v d. fst d = (b, pre @ v @ ''.json'') \<and>
                 is_version_doc url (set (getitem versions v [])) (snd d)) vs docs"
    by blast
  have "list_all2 (\<lambda>v d. fst d = (b, pre @ v @ ''.json'') \<and>
                 is_version_doc url (set (getitem versions v [])) (snd d)) (v # vs)
          (((b, pre @ v @ ''.json''), ?doc) # docs)"
    using docs(2) d by simp
  moreover have "puts (log w') = puts (log w) @ (((b, pre @ v @ ''.json''), ?doc) # docs)"
    using docs(1) by simp
  ultimately have "\<exists>docs. puts (log w') = puts (log w) @ docs \<and>
            list_all2 (\<lambda>v d. fst d = (b, pre @ v @ ''.json'') \<and>
                 is_version_doc url (set (getitem versions v [])) (snd d)) (v # vs) docs"
    by blast
  then show ?case using ih r by simp
qed

lemma providers_loop_shape:
  assumes "providers_loop copy url b pre pv ps w = Inr w'"
    and "\<And>p v a w r w1. p \<in> set ps \<Longrightarrow> a \<in> set (group pv p v) \<Longrightarrow>
           copy a w = Inr (r, w1) \<Longrightarrow> puts (log w1) = puts (log w)"
    and "wf_pv pv"
  shows "(\<exists>blocks. puts (log w') = puts (log w) @ concat blocks \<and>
            list_all2 (\<lambda>p block. \<exists>docs.
                block = docs @ [((b, pre @ ''index.json''),
                                 index_doc (sort (map fst (getitem pv p []))))] \<and>
                list_all2 (\<lambda>v d. fst d = (b, pre @ v @ ''.json'') \<and>
                     is_version_doc url (set (group pv p v)) (snd d))
                  (sort (map fst (getitem pv p []))) docs)
              ps blocks) \<and>
         (\<forall>p \<in> set ps. \<forall>v \<in> set (map fst (getitem pv p [])). \<forall>a \<in> set (group pv p v).
            \<exists>w0 r. copy a w0 = Inr r)"
  using assms(1,2)
proof (induction ps arbitrary: w)
  case Nil
  then show ?case by simp
next
  case (Cons p ps)
  let ?vs = "sort (map fst (getitem pv p []))"
  from Cons.prems(1) obtain idx w1 where
    inner: "versions_loop copy url b pre (getitem pv p []) ?vs [] w = Inr (idx, w1)"
    and rest: "providers_loop copy url b pre pv ps
        (put_object (b, pre @ ''index.json'') (dumps (JObject [(''versions'', JObject idx)]))
           ''application/json'' w1) = Inr w'"
    by (auto simp: Let_def split: sum.splits)
  have v1: "(\<exists>docs. puts (log w1) = puts (log w) @ docs \<and>
            list_all2 (\<lambda>v d. fst d = (b, pre @ v @ ''.json'') \<and>
                 is_version_doc url (set (getitem (getitem pv p []) v [])) (snd d)) ?vs docs) \<and>
         idx = fold (\<lambda>v. AList.update v (JObject [])) ?vs [] \<and>
         (\<forall>v \<in> set ?vs. \<forall>a \<in> set (getitem (getitem pv p []) v []). \<exists>w0 r. copy a w0 = Inr r)"
    using inner
  proof (rule versions_loop_shape)
    fix v a w r w1 assume "a \<in> set (getitem (getitem pv p []) v [])" "copy a w = Inr (r, w1)"
    then show "puts (log w1) = puts (log w)"
      using Cons.prems(2) [of p a v w r w1] by (simp add: group_def)
  qed
  then obtain docs where docs: "puts (log w1) = puts (log w) @ docs"
    "list_all2 (\<lambda>v d. fst d = (b, pre @ v @ ''.json'') \<and>
                 is_version_doc url (set (group pv p v)) (snd d)) ?vs docs"
    unfolding group_def by blast
  have "distinct ?vs" using assms(3) by (simp add: distinct_versions_keys)
  then have idx: "idx = map (\<lambda>v. (v, JObject [])) ?vs"
    using v1 by (simp add: fold_update_fresh)
  let ?block = "docs @ [((b, pre @ ''index.json''), index_doc ?vs)]"
  have ih: "(\<exists>blocks. puts (log w') = puts (log w) @ ?block @ concat blocks \<and>
            list_all2 (\<lambda>p block. \<exists>docs.
                block = docs @ [((b, pre @ ''index.json''),
                                 index_doc (sort (map fst (getitem pv p []))))] \<and>
                list_all2 (\<lambda>v d. fst d = (b, pre @ v @ ''.json'') \<and>
                     is_version_doc url (set (group pv p v)) (snd d))
                  (sort (map fst (getitem pv p []))) docs)
              ps blocks) \<and>
         (\<forall>p \<in> set ps. \<forall>v \<in> set (map fst (getitem pv p [])). \<forall>a \<in> set (group pv p v).
            \<exists>w0 r. copy a w0 = Inr r)"
  proof -
    let ?w2 = "put_object (b, pre @ ''index.json'') (dumps (JObject [(''versions'', JObject idx)]))
           ''application/json'' w1"
    have "(\<exists>blocks. puts (log w') = puts (log ?w2) @ concat blocks \<and>
            list_all2 (\<lambda>p block. \<exists>docs.
                block = docs @ [((b, pre @ ''index.json''),
                                 index_doc (sort (map fst (getitem pv p []))))] \<and>
                list_all2 (\<lambda>v d. fst d = (b, pre @ v @ ''.json'') \<and>
                     is_version_doc url (set (group pv p v)) (snd d))
                  (sort (map fst (getitem pv p []))) docs)
              ps blocks) \<and>
         (\<forall>p \<in> set ps. \<forall>v \<in> set (map fst (getitem pv p [])). \<forall>a \<in> set (group pv p v).
            \<exists>w0 r. copy a w0 = Inr r)"
    proof (rule Cons.IH [OF rest])
      fix p' v a w r w1 assume "p' \<in> set ps" "a \<in> set (group pv p' v)" "copy a w = Inr (r, w1)"
      then show "puts (log w1) = puts (log w)" using Cons.prems(2) [of p' a v w r w1] by simp
    qed
    moreover have "puts (log ?w2) = puts (log w) @ ?block"
      by (simp add: docs(1) idx index_doc_def)
    ultimately show ?thesis by simp
  qed
  then obtain blocks where blocks: "puts (log w') = puts (log w) @ ?block @ concat blocks"
    "list_all2 (\<lambda>p block. \<exists>docs.
                block = docs @ [((b, pre @ ''index.json''),
                                 index_doc (sort (map fst (getitem pv p []))))] \<and>
                list_all2 (\<lambda>v d. fst d = (b, pre @ v @ ''.json'') \<and>
                     is_version_doc url (set (group pv p v)) (snd d))
                  (sort (map fst (getitem pv p []))) docs)
              ps blocks"
    by blast
  have "list_all2 (\<lambda>p block. \<exists>docs.
                block = docs @ [((b, pre @ ''index.json''),
                                 index_doc (sort (map fst (getitem pv p []))))] \<and>
                list_all2 (\<lambda>v d. fst d = (b, pre @ v @ ''.json'') \<and>
                     is_version_doc url (set (group pv p v)) (snd d))
                  (sort (map fst (getitem pv p []))) docs)
              (p # ps) (?block # blocks)"
    using blocks(2) docs(2) by auto
  moreover have "puts (log w') = puts (log w) @ concat (?block # blocks)"
    using blocks(1) by simp
  ultimately have "\<exists>blocks. puts (log w') = puts (log w) @ concat blocks \<and>
            list_all2 (\<lambda>p block. \<exists>docs.
                block = docs @ [((b, pre @ ''index.json''),
                                 index_doc (sort (map fst (getitem pv p []))))] \<and>
                list_all2 (\<lambda>v d. fst d = (b, pre @ v @ ''.json'') \<and>
                     is_version_doc url (set (group pv p v)) (snd d))
                  (sort (map fst (getitem pv p []))) docs)
              (p # ps) blocks"
    by blast
  moreover have "\<forall>p' \<in> set (p # ps). \<forall>v \<in> set (map fst (getitem pv p' [])). \<forall>a \<in> set (group pv p' v).
            \<exists>w0 r. copy a w0 = Inr r"
    using ih v1 by (auto simp: group_def)
  ultimately show ?case by blast
qed

subsection \<open>What a successful \<open>copy_archive\<close> tells\<close>

lemma copies_emit [simp]:
  "copies (log (emit e w)) = copies (log w) @ copies [e]"
  by simp

lemma copy_local_Inr:
  assumes "copy_local env b pre a w = Inr ((h, c), w1)"
  shows "h = fp_local env a" and "puts (log w1) = puts (log w)"
    and "returncode (dirhasher_path env (path a)) = 0"
    and "load_error env (b, pre @ file_name a) = None \<or>
         load_error env (b, pre @ file_name a) = Some ''404''"
proof -
  have rc: "returncode (dirhasher_path env (path a)) = 0"
    using assms by (auto simp: copy_local_def copy_archive_local_def dirhash_local_def Let_def
        split: if_splits)
  have le: "load_error env (b, pre @ file_name a) = None \<or>
         load_error env (b, pre @ file_name a) = Some ''404''"
    using assms rc
    by (auto simp: copy_local_def copy_archive_local_def dirhash_local_def Let_def
        object_exists_cases split: option.splits if_splits)
  note eq = copy_archive_local_eq [OF rc le, of w]
  show "h = fp_local env a"
    using assms unfolding copy_local_def eq
    by (auto simp: Let_def fp_local_def split: if_splits option.splits)
  show "puts (log w1) = puts (log w)"
    using assms unfolding copy_local_def eq
    by (auto simp: Let_def split: if_splits option.splits)
  show "returncode (dirhasher_path env (path a)) = 0" by (rule rc)
  show "load_error env (b, pre @ file_name a) = None \<or>
         load_error env (b, pre @ file_name a) = Some ''404''" by (rule le)
qed

lemma copy_remote_Inr:
  assumes "copy_remote env rb b pre a w = Inr (r, w1)"
  shows "puts (log w1) = puts (log w)"
    and "load_error env (b, pre @ version a @ ''/'' @ file_name a) = None \<or>
         load_error env (b, pre @ version a @ ''/'' @ file_name a) = Some ''404''"
proof -
  show le: "load_error env (b, pre @ version a @ ''/'' @ file_name a) = None \<or>
         load_error env (b, pre @ version a @ ''/'' @ file_name a) = Some ''404''"
    using assms
    by (auto simp: copy_remote_def copy_archive_remote_def object_exists_cases
        split: option.splits if_splits)
  show "puts (log w1) = puts (log w)"
    using assms unfolding copy_remote_def copy_archive_remote_eq [OF le]
    by (auto simp: Let_def split: option.splits list.splits if_splits)
qed

lemma main_local_run:
  assumes "main_local env argv w = Inr w'"
  shows "run_local env (fst (parse_bucket_and_prefix (argv ! 1)))
           (snd (parse_bucket_and_prefix (argv ! 1))) (drop 2 argv)
           (emit (HeadBucket (fst (parse_bucket_and_prefix (argv ! 1)))) w) = Inr w'"
  using assms
  by (auto simp: main_local_def check_bucket_access_def Let_def
      split: if_splits prod.splits option.splits sum.splits)

lemma main_remote_run:
  assumes "main_remote env argv w = Inr w'"
  shows "run_remote env (fst (parse_bucket_and_prefix (argv ! 1)))
           (fst (parse_bucket_and_prefix (argv ! 2))) (snd (parse_bucket_and_prefix (argv ! 2)))
           (list_objects w (fst (parse_bucket_and_prefix (argv ! 1)))
              (snd (parse_bucket_and_prefix (argv ! 1))))
           (emit (ListObjects (fst (parse_bucket_and_prefix (argv ! 1)))
              (snd (parse_bucket_and_prefix (argv ! 1))))
             (emit (HeadBucket (fst (parse_bucket_and_prefix (argv ! 2))))
               (emit (HeadBucket (fst (parse_bucket_and_prefix (argv ! 1)))) w))) = Inr w'"
  using assms
  by (auto simp: main_remote_def check_bucket_access_def Let_def list_objects_def
      split: if_splits prod.splits option.splits sum.splits)




lemma set_group_gather:
  "set (group (gather parse xs []) p v) = {a \<in> parsed parse xs. provider a = p \<and> version a = v}"
  by (simp add: set_group wf_gather members_gather_Nil)


subsection \<open>Runs that complete\<close>

lemma archives_loop_total:
  assumes "I w"
    and "\<And>a w. a \<in> set as \<Longrightarrow> I w \<Longrightarrow> \<exists>r w1. copy a w = Inr (r, w1) \<and> I w1"
  shows "\<exists>vd' w'. archives_loop copy url as vd w = Inr (vd', w') \<and> I w'"
  using assms
proof (induction as arbitrary: vd w)
  case Nil
  then show ?case by simp
next
  case (Cons a as)
  from Cons.prems(2) [of a w] Cons.prems(1) obtain h c w1 where
    step: "copy a w = Inr ((h, c), w1)" and i1: "I w1"
    by (metis list.set_intros(1) prod.collapse)
  have "\<exists>vd' w'. archives_loop copy url as
      (AList.update (os_arch a) (archive_entry h (url a)) vd) w1 = Inr (vd', w') \<and> I w'"
    using i1
  proof (rule Cons.IH)
    fix a' w assume "a' \<in> set as" "I w"
    then show "\<exists>r w1. copy a' w = Inr (r, w1) \<and> I w1" using Cons.prems(2) [of a' w] by simp
  qed
  then show ?case by (simp add: step)
qed

lemma versions_loop_total:
  assumes "I w"
    and "\<And>v a w. v \<in> set vs \<Longrightarrow> a \<in> set (getitem versions v []) \<Longrightarrow> I w \<Longrightarrow>
           \<exists>r w1. copy a w = Inr (r, w1) \<and> I w1"
    and "\<And>k c w. I w \<Longrightarrow> I (put_object (b, pre @ k @ ''.json'') c ''application/json'' w)"
  shows "\<exists>idx' w'. versions_loop copy url b pre versions vs idx w = Inr (idx', w') \<and> I w'"
  using assms(1,2)
proof (induction vs arbitrary: idx w)
  case Nil
  then show ?case by simp
next
  case (Cons v vs)
  have "\<exists>vd w1. archives_loop copy url (sort_key astuple (getitem versions v [])) [] w
      = Inr (vd, w1) \<and> I w1"
    using Cons.prems(1)
  proof (rule archives_loop_total)
    fix a w assume "a \<in> set (sort_key astuple (getitem versions v []))" "I w"
    then show "\<exists>r w1. copy a w = Inr (r, w1) \<and> I w1" using Cons.prems(2) [of v a w] by simp
  qed
  then obtain vd w1 where
    inner: "archives_loop copy url (sort_key astuple (getitem versions v [])) [] w = Inr (vd, w1)"
    and i1: "I w1" by blast
  let ?w2 = "put_object (b, pre @ v @ ''.json'') (dumps (JObject [(''archives'', JObject vd)]))
           ''application/json'' w1"
  have "I ?w2" using i1 by (rule assms(3))
  then have "\<exists>idx' w'. versions_loop copy url b pre versions vs
      (AList.update v (JObject []) idx) ?w2 = Inr (idx', w') \<and> I w'"
  proof (rule Cons.IH)
    fix v' a w assume "v' \<in> set vs" "a \<in> set (getitem versions v' [])" "I w"
    then show "\<exists>r w1. copy a w = Inr (r, w1) \<and> I w1" using Cons.prems(2) [of v' a w] by simp
  qed
  then show ?case by (simp add: inner)
qed

lemma providers_loop_total:
  assumes "I w"
    and "\<And>p v a w. p \<in> set ps \<Longrightarrow> a \<in> set (group pv p v) \<Longrightarrow> I w \<Longrightarrow>
           \<exists>r w1. copy a w = Inr (r, w1) \<and> I w1"
    and "\<And>k c w. I w \<Longrightarrow> I (put_object (b, pre @ k @ ''.json'') c ''application/json'' w)"
  shows "\<exists>w'. providers_loop copy url b pre pv ps w = Inr w' \<and> I w'"
  using assms(1,2)
proof (induction ps arbitrary: w)
  case Nil
  then show ?case by simp
next
  case (Cons p ps)
  let ?vs = "sort (map fst (getitem pv p []))"
  have "\<exists>idx w1. versions_loop copy url b pre (getitem pv p []) ?vs [] w = Inr (idx, w1) \<and> I w1"
    using Cons.prems(1)
  proof (rule versions_loop_total)
    fix v a w assume "a \<in> set (getitem (getitem pv p []) v [])" "I w"
    then show "\<exists>r w1. copy a w = Inr (r, w1) \<and> I w1"
      using Cons.prems(2) [of p a v w] by (simp add: group_def)
  qed (rule assms(3))
  then obtain idx w1 where
    inner: "versions_loop copy url b pre (getitem pv p []) ?vs [] w = Inr (idx, w1)"
    and i1: "I w1" by blast
  let ?w2 = "put_object (b, pre @ ''index.json'') (dumps (JObject [(''versions'', JObject idx)]))
           ''application/json'' w1"
  have "I (put_object (b, pre @ ''index'' @ ''.json'')
      (dumps (JObject [(''versions'', JObject idx)])) ''application/json'' w1)"
    using i1 by (rule assms(3))
  then have "I ?w2" by simp
  then have "\<exists>w'. providers_loop copy url b pre pv ps ?w2 = Inr w' \<and> I w'"
  proof (rule Cons.IH)
    fix p' v a w assume "p' \<in> set ps" "a \<in> set (group pv p' v)" "I w"
    then show "\<exists>r w1. copy a w = Inr (r, w1) \<and> I w1" using Cons.prems(2) [of p' a v w] by simp
  qed
  then show ?case by (simp add: inner Let_def)
qed

subsection \<open>Local runs\<close>


lemma group_subset_members: "a \<in> set (group pv p v) \<Longrightarrow> wf_pv pv \<Longrightarrow> a \<in> members pv"
  using set_group [of pv p v] by simp


section \<open>The claims about runs and about \<open>copy_archive\<close>\<close>

lemma main_local_cong:
  assumes "set xs = set ys"
  shows "main_local env (prog # dest # xs) w = main_local env (prog # dest # ys) w"
proof -
  have "xs = [] \<longleftrightarrow> ys = []" using assms by (metis set_empty)
  then have "length (prog # dest # xs) < 3 \<longleftrightarrow> length (prog # dest # ys) < 3"
    by (cases xs; cases ys) simp_all
  then show ?thesis
    unfolding main_local_def
    by (simp add: run_local_cong [OF assms] split: prod.splits sum.splits)
qed

text \<open>
  Claim C5.  Two invocations on the same set of inputs, given in any order (and with any
  repetitions), end in the same result: the same error, or the same final state, which
  includes the log of every request issued, so the same documents byte for byte and the same
  copies, uploads and puts.  For the remote variant the inputs are the keys that the listing
  yields.
\<close>

theorem sync_independent_of_input_order:
  "set xs = set ys \<longrightarrow>
     main_local env (prog # dest # xs) w = main_local env (prog # dest # ys) w \<and>
     run_local env b pre xs w = run_local env b pre ys w \<and>
     run_remote env rb b pre xs w = run_remote env rb b pre ys w"
proof (intro impI conjI)
  assume h: "set xs = set ys"
  show "main_local env (prog # dest # xs) w = main_local env (prog # dest # ys) w"
    using h by (rule main_local_cong)
  show "run_local env b pre xs w = run_local env b pre ys w"
    using h by (rule run_local_cong)
  show "run_remote env rb b pre xs w = run_remote env rb b pre ys w"
    using h by (rule run_remote_cong)
qed

text \<open>The theorem at two archives given in both orders, for a run that succeeds.\<close>

theorem sync_independent_of_input_order_witness:
  "main_local example_env
      [''prog'', ''bkt/pre/'', ''pkg_1.0.0_linux_amd64.zip'', ''pkg_1.0.0_darwin_amd64.zip'']
      empty_world =
   main_local example_env
      [''prog'', ''bkt/pre/'', ''pkg_1.0.0_darwin_amd64.zip'', ''pkg_1.0.0_linux_amd64.zip'']
      empty_world \<and>
   \<not> isl (main_local example_env
      [''prog'', ''bkt/pre/'', ''pkg_1.0.0_linux_amd64.zip'', ''pkg_1.0.0_darwin_amd64.zip'']
      empty_world)"
proof -
  have s: "set [''pkg_1.0.0_linux_amd64.zip'', ''pkg_1.0.0_darwin_amd64.zip''] =
           set [''pkg_1.0.0_darwin_amd64.zip'', ''pkg_1.0.0_linux_amd64.zip'']"
    by auto
  have n: "\<not> isl (main_local example_env
      [''prog'', ''bkt/pre/'', ''pkg_1.0.0_linux_amd64.zip'', ''pkg_1.0.0_darwin_amd64.zip'']
      empty_world)"
    by code_simp
  show ?thesis
    using sync_independent_of_input_order
      [of "[''pkg_1.0.0_linux_amd64.zip'', ''pkg_1.0.0_darwin_amd64.zip'']"
          "[''pkg_1.0.0_darwin_amd64.zip'', ''pkg_1.0.0_linux_amd64.zip'']"
          example_env "''prog''" "''bkt/pre/''" empty_world] s n
    by blast
qed





subsection \<open>Errors\<close>

lemma run_local_reached:
  assumes "run_local env b pre xs w = Inr w'" and "a \<in> parsed parse_local xs"
  shows "\<exists>w0 r. copy_local env b pre a w0 = Inr r"
proof -
  let ?pv = "gather parse_local xs []"
  have run: "providers_loop (copy_local env b pre) file_name b pre ?pv (sort (map fst ?pv)) w
      = Inr w'"
    using assms(1) by (simp add: run_local_def Let_def)
  have "(\<exists>blocks. puts (log w') = puts (log w) @ concat blocks \<and>
            list_all2 (\<lambda>p block. \<exists>docs.
                block = docs @ [((b, pre @ ''index.json''),
                                 index_doc (sort (map fst (getitem ?pv p []))))] \<and>
                list_all2 (\<lambda>v d. fst d = (b, pre @ v @ ''.json'') \<and>
                     is_version_doc file_name (set (group ?pv p v)) (snd d))
                  (sort (map fst (getitem ?pv p []))) docs)
              (sort (map fst ?pv)) blocks) \<and>
         (\<forall>p \<in> set (sort (map fst ?pv)). \<forall>v \<in> set (map fst (getitem ?pv p [])).
            \<forall>a \<in> set (group ?pv p v). \<exists>w0 r. copy_local env b pre a w0 = Inr r)"
    using run
  proof (rule providers_loop_shape)
    fix a w r w1 assume "copy_local env b pre a w = Inr (r, w1)"
    then show "puts (log w1) = puts (log w)"
      using copy_local_Inr(2) [of env b pre a w "fst r" "snd r" w1] by simp
  next
    show "wf_pv ?pv" by (rule wf_gather)
  qed
  then have r: "\<forall>p \<in> set (sort (map fst ?pv)). \<forall>v \<in> set (map fst (getitem ?pv p [])).
      \<forall>a \<in> set (group ?pv p v). \<exists>w0 r. copy_local env b pre a w0 = Inr r"
    by (rule conjunct2)
  have m: "a \<in> members ?pv" using assms(2) by (simp add: members_gather_Nil)
  then have 1: "provider a \<in> set (sort (map fst ?pv))"
    using providers_keys [OF wf_gather, of parse_local xs] by (simp del: set_map)
  have 2: "version a \<in> set (map fst (getitem ?pv (provider a) []))"
    using m versions_keys [OF wf_gather, of parse_local xs "provider a"] by (simp del: set_map)
  have 3: "a \<in> set (group ?pv (provider a) (version a))"
    using m by (simp add: members_def)
  from r 1 2 3 show ?thesis by blast
qed

lemma main_local_reached:
  assumes "main_local env argv w = Inr w'" and "a \<in> parsed parse_local (drop 2 argv)"
  shows "returncode (dirhasher_path env (path a)) = 0 \<and>
         (\<forall>code. load_error env (fst (parse_bucket_and_prefix (argv ! 1)),
              snd (parse_bucket_and_prefix (argv ! 1)) @ file_name a) = Some code \<longrightarrow>
            code = ''404'')"
proof -
  from run_local_reached [OF main_local_run [OF assms(1)] assms(2)]
  obtain w0 h c w1 where "copy_local env (fst (parse_bucket_and_prefix (argv ! 1)))
      (snd (parse_bucket_and_prefix (argv ! 1))) a w0 = Inr ((h, c), w1)"
    by (metis prod.collapse)
  from copy_local_Inr(3,4) [OF this] show ?thesis by auto
qed

text \<open>
  Claim C8.  In \<open>object_exists\<close> a store error with code 404 yields \<open>False\<close>; a store error
  with any other code is raised again.  \<open>dirhash\<close> raises \<open>MirrorError\<close> when the fingerprint
  procedure exits with a code other than zero, and otherwise returns its output stripped of
  surrounding white space.  Either failure ends the run with an error: a run of \<open>main\<close> that
  has an input archive on which the fingerprint procedure fails, or whose mirror key the
  store refuses to examine with a code other than 404, does not complete.
\<close>

theorem not_found_recovered_other_errors_abort:
  "(load env obj w = Inl (ClientError ''404'') \<longrightarrow>
      object_exists env obj w = Inr (False, emit (HeadObject obj) w)) \<and>
   (code \<noteq> ''404'' \<and> load env obj w = Inl (ClientError code) \<longrightarrow>
      object_exists env obj w = Inl (ClientError code)) \<and>
   (returncode (dirhasher_path env p) \<noteq> 0 \<longrightarrow>
      dirhash_local env p w = Inl (MirrorError (DirhasherFailed (returncode (dirhasher_path env p))))) \<and>
   (returncode (dirhasher_path env p) = 0 \<longrightarrow>
      dirhash_local env p w =
        Inr (strip (stdout (dirhasher_path env p)), emit (RunDirhasher (LocalFile p)) w)) \<and>
   (a \<in> parsed parse_local (drop 2 argv) \<and>
      (returncode (dirhasher_path env (path a)) \<noteq> 0 \<or>
       (\<exists>code. code \<noteq> ''404'' \<and>
          load_error env (fst (parse_bucket_and_prefix (argv ! 1)),
            snd (parse_bucket_and_prefix (argv ! 1)) @ file_name a) = Some code)) \<longrightarrow>
      isl (main_local env argv w))"
proof (intro conjI impI)
  assume "load env obj w = Inl (ClientError ''404'')"
  then show "object_exists env obj w = Inr (False, emit (HeadObject obj) w)"
    by (simp add: object_exists_def)
next
  assume "code \<noteq> ''404'' \<and> load env obj w = Inl (ClientError code)"
  then show "object_exists env obj w = Inl (ClientError code)"
    by (simp add: object_exists_def)
next
  assume "returncode (dirhasher_path env p) \<noteq> 0"
  then show "dirhash_local env p w =
      Inl (MirrorError (DirhasherFailed (returncode (dirhasher_path env p))))"
    by (simp add: dirhash_local_def)
next
  assume "returncode (dirhasher_path env p) = 0"
  then show "dirhash_local env p w =
        Inr (strip (stdout (dirhasher_path env p)), emit (RunDirhasher (LocalFile p)) w)"
    by (simp add: dirhash_local_def)
next
  assume h: "a \<in> parsed parse_local (drop 2 argv) \<and>
      (returncode (dirhasher_path env (path a)) \<noteq> 0 \<or>
       (\<exists>code. code \<noteq> ''404'' \<and>
          load_error env (fst (parse_bucket_and_prefix (argv ! 1)),
            snd (parse_bucket_and_prefix (argv ! 1)) @ file_name a) = Some code))"
  show "isl (main_local env argv w)"
  proof (cases "main_local env argv w")
    case (Inl e)
    then show ?thesis by simp
  next
    case (Inr w')
    from main_local_reached [OF Inr] h show ?thesis by blast
  qed
qed

text \<open>
  The theorem at a missing object, at a store that answers 403, at a fingerprint procedure
  that exits with code 2 and at one that succeeds, and at a run with such failures.
\<close>

theorem not_found_recovered_other_errors_abort_witness:
  "object_exists example_env (''bkt'', ''pre/p_1_l_x.zip'') empty_world =
     Inr (False, emit (HeadObject (''bkt'', ''pre/p_1_l_x.zip'')) empty_world) \<and>
   object_exists failing_env (''bkt'', ''pre/p_1_l_x.zip'') empty_world = Inl (ClientError ''403'') \<and>
   dirhash_local failing_env ''p_1_l_x.zip'' empty_world = Inl (MirrorError (DirhasherFailed 2)) \<and>
   dirhash_local example_env ''p_1_l_x.zip'' empty_world =
     Inr (''h1:p_1_l_x.zip'', emit (RunDirhasher (LocalFile ''p_1_l_x.zip'')) empty_world) \<and>
   isl (main_local failing_env [''prog'', ''bkt/pre/'', ''p_1_l_x.zip''] empty_world)"
proof -
  let ?k = "(''bkt'', ''pre/p_1_l_x.zip'')"
  let ?a = "\<lparr>path = ''p_1_l_x.zip'', file_name = ''p_1_l_x.zip'', provider = ''p'',
      version = ''1'', os = ''l'', arch = ''x''\<rparr>"
  have l1: "load example_env ?k empty_world = Inl (ClientError ''404'')"
    by (simp add: load_def example_env_def empty_world_def lookup_def)
  have l2: "''403'' \<noteq> ''404'' \<and> load failing_env ?k empty_world = Inl (ClientError ''403'')"
    by (simp add: load_def failing_env_def)
  have r1: "returncode (dirhasher_path failing_env ''p_1_l_x.zip'') = 2"
    by (simp add: failing_env_def)
  have r2: "returncode (dirhasher_path example_env ''p_1_l_x.zip'') = 0"
    by (simp add: example_env_def)
  have s: "strip (stdout (dirhasher_path example_env ''p_1_l_x.zip'')) = ''h1:p_1_l_x.zip''"
    by code_simp
  have p: "parse_local ''p_1_l_x.zip'' = Some ?a"
    by code_simp
  then have a: "?a \<in> parsed parse_local (drop 2 [''prog'', ''bkt/pre/'', ''p_1_l_x.zip''])"
    by (simp add: parsed_def)
  have f: "returncode (dirhasher_path failing_env (path ?a)) \<noteq> 0"
    by (simp add: failing_env_def)
  note t1 = not_found_recovered_other_errors_abort
    [of example_env ?k empty_world "''403''" "''p_1_l_x.zip''" ?a "[]"]
  note t2 = not_found_recovered_other_errors_abort
    [of failing_env ?k empty_world "''403''" "''p_1_l_x.zip''" ?a
        "[''prog'', ''bkt/pre/'', ''p_1_l_x.zip'']"]
  have 1: "object_exists example_env ?k empty_world = Inr (False, emit (HeadObject ?k) empty_world)"
    using t1 l1 by blast
  have 2: "object_exists failing_env ?k empty_world = Inl (ClientError ''403'')"
    using t2 l2 by blast
  have 3: "dirhash_local failing_env ''p_1_l_x.zip'' empty_world = Inl (MirrorError (DirhasherFailed 2))"
    using t2 r1 by simp
  have 4: "dirhash_local example_env ''p_1_l_x.zip'' empty_world =
     Inr (''h1:p_1_l_x.zip'', emit (RunDirhasher (LocalFile ''p_1_l_x.zip'')) empty_world)"
    using t1 r2 s by simp
  have 5: "isl (main_local failing_env [''prog'', ''bkt/pre/'', ''p_1_l_x.zip''] empty_world)"
    using t2 a f by blast
  show ?thesis using 1 2 3 4 5 by blast
qed

subsection \<open>\<open>copy_archive\<close>\<close>






section \<open>Scenarios of the local variant\<close>









section \<open>What a completed run establishes\<close>

subsection \<open>What holds of every archive after the loops\<close>

lemma archives_loop_post:
  assumes "archives_loop copy url as vd w = Inr (vd', w')"
    and "\<And>a w r w1. a \<in> set as \<Longrightarrow> copy a w = Inr (r, w1) \<Longrightarrow> S w w1 \<and> Q a w1"
    and "\<And>a w w1. Q a w \<Longrightarrow> S w w1 \<Longrightarrow> Q a w1"
    and "\<And>w. S w w" and "\<And>w1 w2 w3. S w1 w2 \<Longrightarrow> S w2 w3 \<Longrightarrow> S w1 w3"
  shows "S w w' \<and> (\<forall>a \<in> set as. Q a w')"
  using assms(1,2)
proof (induction as arbitrary: vd w)
  case Nil
  then show ?case using assms(4) by simp
next
  case (Cons a as)
  from Cons.prems(1) obtain h c w1 where step: "copy a w = Inr ((h, c), w1)"
    and rest: "archives_loop copy url as
        (AList.update (os_arch a) (archive_entry h (url a)) vd) w1 = Inr (vd', w')"
    by (auto split: sum.splits)
  have s1: "S w w1" and q1: "Q a w1"
    using Cons.prems(2) [of a w "(h, c)" w1] step by simp_all
  have ih: "S w1 w' \<and> (\<forall>a \<in> set as. Q a w')"
  proof (rule Cons.IH [OF rest])
    fix a' w r w1 assume "a' \<in> set as" "copy a' w = Inr (r, w1)"
    then show "S w w1 \<and> Q a' w1" using Cons.prems(2) [of a' w r w1] by simp
  qed
  have "S w w'" using s1 ih assms(5) by blast
  moreover have "Q a w'" using q1 ih assms(3) by blast
  ultimately show ?case using ih by simp
qed

lemma versions_loop_post:
  assumes "versions_loop copy url b pre versions vs idx w = Inr (idx', w')"
    and "\<And>v a w r w1. v \<in> set vs \<Longrightarrow> a \<in> set (getitem versions v []) \<Longrightarrow>
           copy a w = Inr (r, w1) \<Longrightarrow> S w w1 \<and> Q a w1"
    and "\<And>a w w1. Q a w \<Longrightarrow> S w w1 \<Longrightarrow> Q a w1"
    and "\<And>w. S w w" and "\<And>w1 w2 w3. S w1 w2 \<Longrightarrow> S w2 w3 \<Longrightarrow> S w1 w3"
    and "\<And>k c w. S w (put_object (b, pre @ k @ ''.json'') c ''application/json'' w)"
  shows "S w w' \<and> (\<forall>v \<in> set vs. \<forall>a \<in> set (getitem versions v []). Q a w')"
  using assms(1,2)
proof (induction vs arbitrary: idx w)
  case Nil
  then show ?case using assms(4) by simp
next
  case (Cons v vs)
  let ?as = "sort_key astuple (getitem versions v [])"
  from Cons.prems(1) obtain vd w1 where
    inner: "archives_loop copy url ?as [] w = Inr (vd, w1)"
    and rest: "versions_loop copy url b pre versions vs (AList.update v (JObject []) idx)
        (put_object (b, pre @ v @ ''.json'') (dumps (JObject [(''archives'', JObject vd)]))
           ''application/json'' w1) = Inr (idx', w')"
    by (auto split: sum.splits)
  let ?w2 = "put_object (b, pre @ v @ ''.json'') (dumps (JObject [(''archives'', JObject vd)]))
           ''application/json'' w1"
  have a1: "S w w1 \<and> (\<forall>a \<in> set ?as. Q a w1)"
    using inner
  proof (rule archives_loop_post)
    fix a w r w1 assume "a \<in> set ?as" "copy a w = Inr (r, w1)"
    then show "S w w1 \<and> Q a w1" using Cons.prems(2) [of v a w r w1] by simp
  qed (fact assms(3), fact assms(4), fact assms(5))
  have s12: "S w1 ?w2" by (rule assms(6))
  have ih: "S ?w2 w' \<and> (\<forall>v \<in> set vs. \<forall>a \<in> set (getitem versions v []). Q a w')"
  proof (rule Cons.IH [OF rest])
    fix v' a w r w1 assume "v' \<in> set vs" "a \<in> set (getitem versions v' [])"
      "copy a w = Inr (r, w1)"
    then show "S w w1 \<and> Q a w1" using Cons.prems(2) [of v' a w r w1] by simp
  qed
  have s1: "S w1 w'" using s12 ih assms(5) by blast
  have "S w w'" using a1 s1 assms(5) by blast
  moreover have "\<forall>a \<in> set (getitem versions v []). Q a w'"
    using a1 s1 assms(3) by auto
  ultimately show ?case using ih by simp
qed

lemma providers_loop_post:
  assumes "providers_loop copy url b pre pv ps w = Inr w'"
    and "\<And>p v a w r w1. p \<in> set ps \<Longrightarrow> a \<in> set (group pv p v) \<Longrightarrow>
           copy a w = Inr (r, w1) \<Longrightarrow> S w w1 \<and> Q a w1"
    and "\<And>a w w1. Q a w \<Longrightarrow> S w w1 \<Longrightarrow> Q a w1"
    and "\<And>w. S w w" and "\<And>w1 w2 w3. S w1 w2 \<Longrightarrow> S w2 w3 \<Longrightarrow> S w1 w3"
    and "\<And>k c w. S w (put_object (b, pre @ k @ ''.json'') c ''application/json'' w)"
  shows "S w w' \<and>
         (\<forall>p \<in> set ps. \<forall>v \<in> set (map fst (getitem pv p [])). \<forall>a \<in> set (group pv p v). Q a w')"
  using assms(1,2)
proof (induction ps arbitrary: w)
  case Nil
  then show ?case using assms(4) by simp
next
  case (Cons p ps)
  let ?vs = "sort (map fst (getitem pv p []))"
  from Cons.prems(1) obtain idx w1 where
    inner: "versions_loop copy url b pre (getitem pv p []) ?vs [] w = Inr (idx, w1)"
    and rest: "providers_loop copy url b pre pv ps
        (put_object (b, pre @ ''index.json'') (dumps (JObject [(''versions'', JObject idx)]))
           ''application/json'' w1) = Inr w'"
    by (auto simp: Let_def split: sum.splits)
  let ?w2 = "put_object (b, pre @ ''index.json'') (dumps (JObject [(''versions'', JObject idx)]))
           ''application/json'' w1"
  have v1: "S w w1 \<and> (\<forall>v \<in> set ?vs. \<forall>a \<in> set (getitem (getitem pv p []) v []). Q a w1)"
    using inner
  proof (rule versions_loop_post)
    fix v a w r w1 assume "a \<in> set (getitem (getitem pv p []) v [])" "copy a w = Inr (r, w1)"
    then show "S w w1 \<and> Q a w1" using Cons.prems(2) [of p a v w r w1] by (simp add: group_def)
  qed (fact assms(3), fact assms(4), fact assms(5), fact assms(6))
  have "S w1 (put_object (b, pre @ ''index'' @ ''.json'')
      (dumps (JObject [(''versions'', JObject idx)])) ''application/json'' w1)"
    by (rule assms(6))
  then have s12: "S w1 ?w2" by simp
  have ih: "S ?w2 w' \<and>
         (\<forall>p \<in> set ps. \<forall>v \<in> set (map fst (getitem pv p [])). \<forall>a \<in> set (group pv p v). Q a w')"
  proof (rule Cons.IH [OF rest])
    fix p' v a w r w1 assume "p' \<in> set ps" "a \<in> set (group pv p' v)" "copy a w = Inr (r, w1)"
    then show "S w w1 \<and> Q a w1" using Cons.prems(2) [of p' a v w r w1] by simp
  qed
  have s1: "S w1 w'" using s12 ih assms(5) by blast
  have "S w w'" using v1 s1 assms(5) by blast
  moreover have "\<forall>v \<in> set (map fst (getitem pv p [])). \<forall>a \<in> set (group pv p v). Q a w'"
  proof (intro ballI)
    fix v a assume v: "v \<in> set (map fst (getitem pv p []))" and a: "a \<in> set (group pv p v)"
    from v have "v \<in> set ?vs" by (simp del: set_map)
    with v1 a have "Q a w1" unfolding group_def by blast
    then show "Q a w'" using s1 by (rule assms(3))
  qed
  ultimately show ?case using ih by simp
qed

lemma gather_post:
  assumes "providers_loop copy url b pre (gather parse xs [])
      (sort (map fst (gather parse xs []))) w = Inr w'"
    and "\<And>a w r w1. a \<in> parsed parse xs \<Longrightarrow> copy a w = Inr (r, w1) \<Longrightarrow> S w w1 \<and> Q a w1"
    and "\<And>a w w1. Q a w \<Longrightarrow> S w w1 \<Longrightarrow> Q a w1"
    and "\<And>w. S w w" and "\<And>w1 w2 w3. S w1 w2 \<Longrightarrow> S w2 w3 \<Longrightarrow> S w1 w3"
    and "\<And>k c w. S w (put_object (b, pre @ k @ ''.json'') c ''application/json'' w)"
  shows "S w w' \<and> (\<forall>a \<in> parsed parse xs. Q a w')"
proof -
  let ?pv = "gather parse xs []"
  have r: "S w w' \<and>
         (\<forall>p \<in> set (sort (map fst ?pv)). \<forall>v \<in> set (map fst (getitem ?pv p [])).
            \<forall>a \<in> set (group ?pv p v). Q a w')"
    using assms(1)
  proof (rule providers_loop_post)
    fix p v a w r w1 assume "a \<in> set (group ?pv p v)" "copy a w = Inr (r, w1)"
    moreover from this have "a \<in> parsed parse xs"
      using group_subset_members [OF _ wf_gather, of a parse xs p v]
      by (simp add: members_gather_Nil)
    ultimately show "S w w1 \<and> Q a w1" using assms(2) by blast
  qed (fact assms(3), fact assms(4), fact assms(5), fact assms(6))
  have "Q a w'" if "a \<in> parsed parse xs" for a
  proof -
    have m: "a \<in> members ?pv" using that by (simp add: members_gather_Nil)
    then have 1: "provider a \<in> set (sort (map fst ?pv))"
      using providers_keys [OF wf_gather, of parse xs] by (simp del: set_map)
    have 2: "version a \<in> set (map fst (getitem ?pv (provider a) []))"
      using m versions_keys [OF wf_gather, of parse xs "provider a"] by (simp del: set_map)
    have 3: "a \<in> set (group ?pv (provider a) (version a))"
      using m by (simp add: members_def)
    from r 1 2 3 show ?thesis by blast
  qed
  with r show ?thesis by blast
qed

lemma gather_docs:
  assumes "providers_loop copy url b pre (gather parse xs [])
      (sort (map fst (gather parse xs []))) w = Inr w'"
    and "\<And>a w h c w1. a \<in> parsed parse xs \<Longrightarrow> copy a w = Inr ((h, c), w1) \<Longrightarrow>
           S w w1 \<and> (\<forall>w2. S w1 w2 \<longrightarrow> h = fp w2 a) \<and> puts (log w1) = puts (log w)"
    and "\<And>w. S w w" and "\<And>w1 w2 w3. S w1 w2 \<Longrightarrow> S w2 w3 \<Longrightarrow> S w1 w3"
    and "\<And>k c w. S w (put_object (b, pre @ k @ ''.json'') c ''application/json'' w)"
  shows "S w w' \<and>
         (\<forall>w2. S w' w2 \<longrightarrow> puts (log w') = puts (log w) @
            concat (map (provider_docs (fp w2) url b pre (gather parse xs []))
                      (sort (map fst (gather parse xs [])))))"
  using assms(1)
proof (rule providers_loop_docs)
  fix p v a w h c w1
  assume "a \<in> set (group (gather parse xs []) p v)" "copy a w = Inr ((h, c), w1)"
  moreover from this have "a \<in> parsed parse xs"
    using group_subset_members [OF _ wf_gather, of a parse xs p v]
    by (simp add: members_gather_Nil)
  ultimately show "S w w1 \<and> (\<forall>w2. S w1 w2 \<longrightarrow> h = fp w2 a) \<and> puts (log w1) = puts (log w)"
    using assms(2) by blast
qed (fact assms(3), fact assms(4), fact assms(5), rule wf_gather)

lemma gather_total:
  assumes "I w"
    and "\<And>a w. a \<in> parsed parse xs \<Longrightarrow> I w \<Longrightarrow> \<exists>r w1. copy a w = Inr (r, w1) \<and> I w1"
    and "\<And>k c w. I w \<Longrightarrow> I (put_object (b, pre @ k @ ''.json'') c ''application/json'' w)"
  shows "\<exists>w'. providers_loop copy url b pre (gather parse xs [])
      (sort (map fst (gather parse xs []))) w = Inr w' \<and> I w'"
  using assms(1)
proof (rule providers_loop_total)
  fix p v a w assume "a \<in> set (group (gather parse xs []) p v)" "I w"
  moreover from this have "a \<in> parsed parse xs"
    using group_subset_members [OF _ wf_gather, of a parse xs p v]
    by (simp add: members_gather_Nil)
  ultimately show "\<exists>r w1. copy a w = Inr (r, w1) \<and> I w1" using assms(2) by blast
qed (rule assms(3))

lemma version_doc_cong:
  assumes "\<And>a. a \<in> set as \<Longrightarrow> f a = g a"
  shows "version_doc f url as = version_doc g url as"
proof -
  have "fold (\<lambda>a. AList.update (os_arch a) (archive_entry (f a) (url a))) as d =
        fold (\<lambda>a. AList.update (os_arch a) (archive_entry (g a) (url a))) as d" for d
    using assms by (induction as arbitrary: d) simp_all
  then show ?thesis by (simp add: version_doc_def)
qed

lemma gather_docs_cong:
  assumes "\<And>a. a \<in> parsed parse xs \<Longrightarrow> f a = g a"
  shows "concat (map (provider_docs f url b pre (gather parse xs [])) ps) =
         concat (map (provider_docs g url b pre (gather parse xs [])) ps)"
proof -
  have "version_doc f url (sort_key astuple (group (gather parse xs []) p v)) =
        version_doc g url (sort_key astuple (group (gather parse xs []) p v))" for p v
  proof (rule version_doc_cong)
    fix a assume "a \<in> set (sort_key astuple (group (gather parse xs []) p v))"
    then have "a \<in> parsed parse xs" by (simp add: set_group_gather)
    then show "f a = g a" by (rule assms)
  qed
  then have pd: "provider_docs f url b pre (gather parse xs []) p =
        provider_docs g url b pre (gather parse xs []) p" for p
    by (simp add: provider_docs_def Let_def)
  have "provider_docs f url b pre (gather parse xs []) =
        provider_docs g url b pre (gather parse xs [])"
    by (rule ext) (rule pd)
  then show ?thesis by (rule arg_cong)
qed

subsection \<open>Mirror keys and document keys\<close>

lemma parsed_file_name_zip:
  assumes "a \<in> parsed parse_local xs \<or> a \<in> parsed parse_remote xs"
  shows "endswith (file_name a) ''.zip''"
proof -
  have "\<exists>x. parse_remote x = Some a"
    using assms unfolding parsed_def parse_local_eq_parse_remote by blast
  then obtain x where x: "parse_remote x = Some a" ..
  have 1: "basename x = archive_name (provider a) (version a) (os a) (arch a)"
    and 2: "file_name a = basename x"
    using parse_remote_Some [OF x] by blast+
  define stem where "stem = provider a @ ''_'' @ version a @ ''_'' @ os a @ ''_'' @ arch a"
  have "file_name a = stem @ ''.zip''"
    unfolding 2 1 archive_name_def stem_def by simp
  then have "\<exists>pre. file_name a = pre @ ''.zip''" by blast
  then show ?thesis by (simp only: endswith_iff)
qed

lemma zip_not_json:
  assumes "endswith f ''.zip''"
  shows "x @ f \<noteq> k @ ''.json''"
proof
  assume eq: "x @ f = k @ ''.json''"
  from assms obtain g where f: "f = g @ ''.zip''" using endswith_iff by blast
  have "drop (length (x @ f) - 4) (x @ f) = ''.zip''" by (simp add: f)
  moreover have "drop (length (k @ ''.json'') - 4) (k @ ''.json'') = ''json''" by simp
  ultimately show False using eq by simp
qed

lemma cached_dirhash_emit [simp]: "cached_dirhash env (emit e w) k = cached_dirhash env w k"
  by (simp add: cached_dirhash_def)

lemma cached_dirhash_store:
  "cached_dirhash env (store k ob w) k' =
     (if k' = k then (if load_error env k = None then map_of (metadata ob) DIRHASH_METADATA else None)
      else cached_dirhash env w k')"
  by (simp add: cached_dirhash_def obj_metadata_def)

lemma cached_dirhash_put_object:
  "k' \<noteq> k \<Longrightarrow> cached_dirhash env (put_object k c ct w) k' = cached_dirhash env w k'"
  by (simp add: put_object_def cached_dirhash_store)

lemma copies_put_object [simp]: "copies (log (put_object k c ct w)) = copies (log w)"
  by (simp add: put_object_def)

subsection \<open>The local variant\<close>

lemma copy_local_effect:
  assumes "copy_local env b pre a w = Inr ((h, c), w1)"
    and "load_error env (b, pre @ file_name a) = None"
  shows "cached_dirhash env w1 (b, pre @ file_name a) = Some (fp_local env a)"
    and "\<And>k. k \<noteq> (b, pre @ file_name a) \<Longrightarrow> cached_dirhash env w1 k = cached_dirhash env w k"
    and "cached_dirhash env w (b, pre @ file_name a) = Some (fp_local env a) \<Longrightarrow>
           copies (log w1) = copies (log w)"
proof -
  have rc: "returncode (dirhasher_path env (path a)) = 0"
    using copy_local_Inr(3) [OF assms(1)] .
  have le: "load_error env (b, pre @ file_name a) = None \<or>
      load_error env (b, pre @ file_name a) = Some ''404''"
    using assms(2) by simp
  note eq = copy_archive_local_eq [OF rc le, of w]
  show "cached_dirhash env w1 (b, pre @ file_name a) = Some (fp_local env a)"
    using assms unfolding copy_local_def eq
    by (auto simp: Let_def fp_local_def cached_dirhash_store split: if_splits option.splits)
  show "cached_dirhash env w1 k = cached_dirhash env w k" if "k \<noteq> (b, pre @ file_name a)" for k
    using assms that unfolding copy_local_def eq
    by (auto simp: Let_def cached_dirhash_store split: if_splits option.splits)
  show "copies (log w1) = copies (log w)"
    if "cached_dirhash env w (b, pre @ file_name a) = Some (fp_local env a)"
    using assms that unfolding copy_local_def eq
    by (auto simp: Let_def fp_local_def split: if_splits option.splits)
qed

lemma copy_local_skip:
  assumes "returncode (dirhasher_path env (path a)) = 0"
    and "load_error env (b, pre @ file_name a) = None"
    and "cached_dirhash env w (b, pre @ file_name a) = Some (fp_local env a)"
  shows "copy_local env b pre a w = Inr ((fp_local env a, False),
           emit (HeadObject (b, pre @ file_name a)) (emit (RunDirhasher (LocalFile (path a))) w))"
proof -
  have le: "load_error env (b, pre @ file_name a) = None \<or>
      load_error env (b, pre @ file_name a) = Some ''404''"
    using assms(2) by simp
  show ?thesis
    unfolding copy_local_def copy_archive_local_eq [OF assms(1) le]
    using assms(3) by (simp add: Let_def fp_local_def)
qed

section \<open>A second run on the same input\<close>

lemma cached_dirhash_objects:
  "objects w = objects w' \<Longrightarrow> cached_dirhash env w k = cached_dirhash env w' k"
  by (simp add: cached_dirhash_def obj_metadata_def lookup_def)

subsection \<open>A second local run\<close>

lemma run_local_docs:
  assumes "run_local env b pre xs w = Inr w'"
  shows "puts (log w') = puts (log w) @
           concat (map (provider_docs (fp_local env) file_name b pre (gather parse_local xs []))
                     (sort (map fst (gather parse_local xs []))))"
proof -
  let ?pv = "gather parse_local xs []"
  have run: "providers_loop (copy_local env b pre) file_name b pre ?pv (sort (map fst ?pv)) w
      = Inr w'"
    using assms by (simp add: run_local_def Let_def)
  have "True \<and> (\<forall>w2::world. True \<longrightarrow> puts (log w') = puts (log w) @
            concat (map (provider_docs ((\<lambda>w. fp_local env) w2) file_name b pre ?pv)
              (sort (map fst ?pv))))"
  proof (rule gather_docs [where S = "\<lambda>w w'. True" and fp = "\<lambda>w. fp_local env", OF run])
    fix a w h c w1 assume "copy_local env b pre a w = Inr ((h, c), w1)"
    then show "True \<and> (\<forall>w2::world. True \<longrightarrow> h = fp_local env a) \<and> puts (log w1) = puts (log w)"
      using copy_local_Inr(1,2) by simp
  qed simp_all
  then show ?thesis by simp
qed

lemma run_local_fingerprints_stored:
  assumes "run_local env b pre xs w = Inr w'"
    and "\<forall>k. load_error env k = None"
    and "\<forall>a \<in> parsed parse_local xs. \<forall>a' \<in> parsed parse_local xs.
           file_name a = file_name a' \<longrightarrow> fp_local env a = fp_local env a'"
  shows "\<forall>a \<in> parsed parse_local xs.
           cached_dirhash env w' (b, pre @ file_name a) = Some (fp_local env a)"
proof -
  let ?P = "parsed parse_local xs"
  let ?pv = "gather parse_local xs []"
  let ?S = "\<lambda>w w'. \<forall>a \<in> ?P. cached_dirhash env w (b, pre @ file_name a) = Some (fp_local env a)
      \<longrightarrow> cached_dirhash env w' (b, pre @ file_name a) = Some (fp_local env a)"
  let ?Q = "\<lambda>a w. a \<in> ?P \<longrightarrow> cached_dirhash env w (b, pre @ file_name a) = Some (fp_local env a)"
  have run: "providers_loop (copy_local env b pre) file_name b pre ?pv (sort (map fst ?pv)) w
      = Inr w'"
    using assms(1) by (simp add: run_local_def Let_def)
  have "?S w w' \<and> (\<forall>a \<in> ?P. ?Q a w')"
  proof (rule gather_post [where S = ?S and Q = ?Q, OF run])
    fix a w r w1 assume a: "a \<in> ?P" and c: "copy_local env b pre a w = Inr (r, w1)"
    have le: "load_error env (b, pre @ file_name a) = None" using assms(2) by simp
    have c': "copy_local env b pre a w = Inr ((fst r, snd r), w1)" using c by simp
    note e = copy_local_effect [OF c' le]
    have "?S w w1"
    proof (intro ballI impI)
      fix a' assume a': "a' \<in> ?P"
        and h: "cached_dirhash env w (b, pre @ file_name a') = Some (fp_local env a')"
      show "cached_dirhash env w1 (b, pre @ file_name a') = Some (fp_local env a')"
      proof (cases "file_name a' = file_name a")
        case True
        then have "fp_local env a' = fp_local env a" using assms(3) a a' by blast
        then show ?thesis using e(1) True by simp
      next
        case False
        then have "(b, pre @ file_name a') \<noteq> (b, pre @ file_name a)" by simp
        then show ?thesis using e(2) h by simp
      qed
    qed
    moreover have "?Q a w1" using e(1) by simp
    ultimately show "?S w w1 \<and> ?Q a w1" by blast
  next
    fix a w w1 assume "?Q a w" "?S w w1"
    then show "?Q a w1" by blast
  next
    fix w show "?S w w" by simp
  next
    fix w1 w2 w3 assume "?S w1 w2" "?S w2 w3"
    then show "?S w1 w3" by blast
  next
    fix k c w
    show "?S w (put_object (b, pre @ k @ ''.json'') c ''application/json'' w)"
    proof (intro ballI impI)
      fix a assume a: "a \<in> ?P"
        and h: "cached_dirhash env w (b, pre @ file_name a) = Some (fp_local env a)"
      have "endswith (file_name a) ''.zip''" using a by (intro parsed_file_name_zip disjI1)
      then have "pre @ file_name a \<noteq> (pre @ k) @ ''.json''" by (rule zip_not_json)
      then have "(b, pre @ file_name a) \<noteq> (b, pre @ k @ ''.json'')" by simp
      then show "cached_dirhash env (put_object (b, pre @ k @ ''.json'') c ''application/json'' w)
          (b, pre @ file_name a) = Some (fp_local env a)"
        using h by (simp add: cached_dirhash_put_object)
    qed
  qed
  then show ?thesis by blast
qed

lemma run_local_again:
  assumes "run_local env b pre xs w = Inr w1"
    and "\<forall>k. load_error env k = None"
    and "\<forall>a \<in> parsed parse_local xs. \<forall>a' \<in> parsed parse_local xs.
           file_name a = file_name a' \<longrightarrow> fp_local env a = fp_local env a'"
    and "objects w1' = objects w1"
  shows "\<exists>w2. run_local env b pre xs w1' = Inr w2 \<and> copies (log w2) = copies (log w1')"
proof -
  let ?P = "parsed parse_local xs"
  let ?pv = "gather parse_local xs []"
  let ?I = "\<lambda>w. (\<forall>a \<in> ?P. cached_dirhash env w (b, pre @ file_name a) = Some (fp_local env a)) \<and>
      copies (log w) = copies (log w1')"
  have j: "\<forall>a \<in> ?P. cached_dirhash env w1 (b, pre @ file_name a) = Some (fp_local env a)"
    using assms(1,2,3) by (rule run_local_fingerprints_stored)
  have i0: "?I w1'"
    using j cached_dirhash_objects [OF assms(4)] by simp
  have "\<exists>w2. providers_loop (copy_local env b pre) file_name b pre ?pv (sort (map fst ?pv)) w1'
      = Inr w2 \<and> ?I w2"
    using i0
  proof (rule gather_total [where I = ?I])
    fix a w assume a: "a \<in> ?P" and i: "?I w"
    from run_local_reached [OF assms(1) a] obtain w0 h c w0'
      where "copy_local env b pre a w0 = Inr ((h, c), w0')" by (metis prod.collapse)
    then have rc: "returncode (dirhasher_path env (path a)) = 0" by (rule copy_local_Inr(3))
    have le: "load_error env (b, pre @ file_name a) = None" using assms(2) by simp
    have ca: "cached_dirhash env w (b, pre @ file_name a) = Some (fp_local env a)"
      using i a by blast
    note s = copy_local_skip [OF rc le ca]
    have "?I (emit (HeadObject (b, pre @ file_name a)) (emit (RunDirhasher (LocalFile (path a))) w))"
      using i by simp
    then show "\<exists>r w1. copy_local env b pre a w = Inr (r, w1) \<and> ?I w1"
      using s by blast
  next
    fix k c w assume i: "?I w"
    show "?I (put_object (b, pre @ k @ ''.json'') c ''application/json'' w)"
    proof (intro conjI ballI)
      fix a assume a: "a \<in> ?P"
      have "endswith (file_name a) ''.zip''" using a by (intro parsed_file_name_zip disjI1)
      then have "pre @ file_name a \<noteq> (pre @ k) @ ''.json''" by (rule zip_not_json)
      then have "(b, pre @ file_name a) \<noteq> (b, pre @ k @ ''.json'')" by simp
      then show "cached_dirhash env (put_object (b, pre @ k @ ''.json'') c ''application/json'' w)
          (b, pre @ file_name a) = Some (fp_local env a)"
        using i a by (simp add: cached_dirhash_put_object)
    next
      show "copies (log (put_object (b, pre @ k @ ''.json'') c ''application/json'' w)) =
          copies (log w1')"
        using i by simp
    qed
  qed
  then show ?thesis by (auto simp: run_local_def Let_def)
qed

lemma main_local_Inr:
  assumes "main_local env argv w = Inr w'"
  shows "\<not> length argv < 3"
    and "head_bucket_error env (fst (parse_bucket_and_prefix (argv ! 1))) = None"
  using assms
  by (auto simp: main_local_def check_bucket_access_def Let_def
      split: if_splits prod.splits option.splits sum.splits)

lemma main_local_unfold:
  assumes "\<not> length argv < 3"
    and "head_bucket_error env (fst (parse_bucket_and_prefix (argv ! 1))) = None"
  shows "main_local env argv w =
     run_local env (fst (parse_bucket_and_prefix (argv ! 1)))
       (snd (parse_bucket_and_prefix (argv ! 1))) (drop 2 argv)
       (emit (HeadBucket (fst (parse_bucket_and_prefix (argv ! 1)))) w)"
  using assms
  by (auto simp: main_local_def check_bucket_access_def Let_def split: prod.splits)

lemma main_local_again:
  assumes "main_local env argv w0 = Inr w1"
    and "\<forall>k. load_error env k = None"
    and "\<forall>a \<in> parsed parse_local (drop 2 argv). \<forall>a' \<in> parsed parse_local (drop 2 argv).
           file_name a = file_name a' \<longrightarrow> fp_local env a = fp_local env a'"
  shows "\<exists>w2. main_local env argv (w1\<lparr>log := []\<rparr>) = Inr w2 \<and> copies (log w2) = [] \<and>
           puts (log w1) = puts (log w0) @ puts (log w2)"
proof -
  let ?b = "fst (parse_bucket_and_prefix (argv ! 1))"
  let ?pre = "snd (parse_bucket_and_prefix (argv ! 1))"
  let ?w = "emit (HeadBucket ?b) (w1\<lparr>log := []\<rparr>)"
  note u = main_local_unfold [OF main_local_Inr [OF assms(1)]]
  have run1: "run_local env ?b ?pre (drop 2 argv) (emit (HeadBucket ?b) w0) = Inr w1"
    using assms(1) by (rule main_local_run)
  have ob: "objects ?w = objects w1" by simp
  from run_local_again [OF run1 assms(2,3) ob] obtain w2
    where run2: "run_local env ?b ?pre (drop 2 argv) ?w = Inr w2"
      and c: "copies (log w2) = copies (log ?w)" by blast
  have "puts (log w1) = puts (log w0) @ puts (log w2)"
    using run_local_docs [OF run1] run_local_docs [OF run2] by simp
  moreover have "copies (log w2) = []" using c by simp
  ultimately show ?thesis using run2 by (simp add: u)
qed

subsection \<open>A second remote run\<close>

lemma copy_remote_effect:
  assumes "copy_remote env rb b pre a w = Inr ((h, c), w1)"
    and "load_error env (b, pre @ version a @ ''/'' @ file_name a) = None"
    and "\<forall>data. returncode (dirhasher_body env data) = 0 \<longrightarrow>
           strip (stdout (dirhasher_body env data)) \<noteq> []"
  shows "cached_dirhash env w1 (b, pre @ version a @ ''/'' @ file_name a) = Some h"
    and "h \<noteq> []"
    and "\<And>k. k \<noteq> (b, pre @ version a @ ''/'' @ file_name a) \<Longrightarrow>
           cached_dirhash env w1 k = cached_dirhash env w k"
    and "\<And>x xs. cached_dirhash env w (b, pre @ version a @ ''/'' @ file_name a) = Some (x # xs) \<Longrightarrow>
           h = x # xs"
proof -
  let ?mk = "(b, pre @ version a @ ''/'' @ file_name a)"
  have le: "load_error env ?mk = None \<or> load_error env ?mk = Some ''404''"
    using assms(2) by simp
  note eq = copy_archive_remote_eq [OF le, of "(rb, path a)" w]
  show "cached_dirhash env w1 ?mk = Some h"
    using assms(1,2) unfolding copy_remote_def eq
    by (auto simp: Let_def cached_dirhash_store AList.update_conv'
        split: if_splits option.splits list.splits)
  show "h \<noteq> []"
    using assms unfolding copy_remote_def eq
    by (auto simp: Let_def split: if_splits option.splits list.splits)
  show "cached_dirhash env w1 k = cached_dirhash env w k" if "k \<noteq> ?mk" for k
    using assms(1,2) that unfolding copy_remote_def eq
    by (auto simp: Let_def cached_dirhash_store split: if_splits option.splits list.splits)
  show "h = x # xs" if "cached_dirhash env w ?mk = Some (x # xs)" for x xs
    using assms(1,2) that unfolding copy_remote_def eq
    by (auto simp: Let_def split: if_splits option.splits list.splits)
qed

lemma copy_remote_skip:
  assumes "load_error env (b, pre @ version a @ ''/'' @ file_name a) = None"
    and "cached_dirhash env w (b, pre @ version a @ ''/'' @ file_name a) = Some (x # xs)"
  shows "copy_remote env rb b pre a w =
           Inr ((x # xs, False), emit (HeadObject (b, pre @ version a @ ''/'' @ file_name a)) w)"
proof -
  have le: "load_error env (b, pre @ version a @ ''/'' @ file_name a) = None \<or>
      load_error env (b, pre @ version a @ ''/'' @ file_name a) = Some ''404''"
    using assms(1) by simp
  show ?thesis
    unfolding copy_remote_def copy_archive_remote_eq [OF le]
    using assms(2) by (simp add: Let_def)
qed

lemma run_remote_again:
  assumes run1: "run_remote env rb b pre xs w = Inr w1"
    and le: "\<forall>k. load_error env k = None"
    and ne: "\<forall>data. returncode (dirhasher_body env data) = 0 \<longrightarrow>
           strip (stdout (dirhasher_body env data)) \<noteq> []"
    and ob: "objects w1' = objects w1"
  shows "\<exists>w2 ds. run_remote env rb b pre xs w1' = Inr w2 \<and> copies (log w2) = copies (log w1') \<and>
           puts (log w2) = puts (log w1') @ ds \<and> puts (log w1) = puts (log w) @ ds"
proof -
  define mk where "mk a = (b, pre @ version a @ ''/'' @ file_name a)" for a :: archive
  define P where "P = parsed parse_remote xs"
  define S where "S u u' \<longleftrightarrow> (\<forall>a \<in> P. \<forall>x xs. cached_dirhash env u (mk a) = Some (x # xs) \<longrightarrow>
      cached_dirhash env u' (mk a) = Some (x # xs))" for u u'
  define Q where "Q a u \<longleftrightarrow> (a \<in> P \<longrightarrow> (\<exists>x xs. cached_dirhash env u (mk a) = Some (x # xs)))"
    for a u
  define fp where "fp u a = (case cached_dirhash env u (mk a) of Some h \<Rightarrow> h | None \<Rightarrow> [])"
    for u a
  define D where "D f = concat (map (provider_docs f url_remote b pre (gather parse_remote xs []))
      (sort (map fst (gather parse_remote xs []))))" for f
  have Srefl: "S u u" for u by (simp add: S_def)
  have Strans: "S u1 u3" if "S u1 u2" "S u2 u3" for u1 u2 u3
    using that unfolding S_def by blast
  have QS: "Q a u'" if "Q a u" "S u u'" for a u u'
    using that unfolding Q_def S_def by blast
  have mk_json: "mk a \<noteq> (b, pre @ k @ ''.json'')" if "a \<in> P" for a k
  proof -
    have "endswith (file_name a) ''.zip''"
      using that unfolding P_def by (intro parsed_file_name_zip disjI2)
    then have "(pre @ version a @ ''/'') @ file_name a \<noteq> (pre @ k) @ ''.json''"
      by (rule zip_not_json)
    then show ?thesis by (simp add: mk_def)
  qed
  have Sput: "S u (put_object (b, pre @ k @ ''.json'') c ''application/json'' u)" for k c u
    unfolding S_def using mk_json by (simp add: cached_dirhash_put_object)
  have step: "S u u' \<and> Q a u' \<and> (\<forall>u2. S u' u2 \<longrightarrow> h = fp u2 a) \<and> puts (log u') = puts (log u)"
    if a: "a \<in> P" and c: "copy_remote env rb b pre a u = Inr ((h, c), u')" for a u h c u'
  proof -
    have l: "load_error env (b, pre @ version a @ ''/'' @ file_name a) = None" using le by simp
    note e = copy_remote_effect [OF c l ne, folded mk_def]
    from e(2) obtain y ys where h: "h = y # ys" by (cases h) simp_all
    have "S u u'"
      unfolding S_def
    proof (intro ballI allI impI)
      fix a' x xs assume "a' \<in> P" and ca: "cached_dirhash env u (mk a') = Some (x # xs)"
      show "cached_dirhash env u' (mk a') = Some (x # xs)"
      proof (cases "mk a' = mk a")
        case True
        then show ?thesis using e(1) e(4) [of x xs] ca by simp
      next
        case False
        then show ?thesis using e(3) ca by simp
      qed
    qed
    moreover have "Q a u'" using e(1) h by (simp add: Q_def)
    moreover have "\<forall>u2. S u' u2 \<longrightarrow> h = fp u2 a"
      using e(1) h a unfolding S_def fp_def by auto
    moreover have "puts (log u') = puts (log u)" using c by (rule copy_remote_Inr(1))
    ultimately show ?thesis by blast
  qed
  have docs: "S u u' \<and> puts (log u') = puts (log u) @ D (fp u')"
    if "run_remote env rb b pre xs u = Inr u'" for u u'
  proof -
    have loop: "providers_loop (copy_remote env rb b pre) url_remote b pre
        (gather parse_remote xs []) (sort (map fst (gather parse_remote xs []))) u = Inr u'"
      using that by (simp add: run_remote_def Let_def)
    have "S u u' \<and> (\<forall>u2. S u' u2 \<longrightarrow> puts (log u') = puts (log u) @
         concat (map (provider_docs (fp u2) url_remote b pre (gather parse_remote xs []))
                        (sort (map fst (gather parse_remote xs [])))))"
      using loop
    proof (rule gather_docs [where S = S and fp = fp])
      fix a u h c u'
      assume "a \<in> parsed parse_remote xs" "copy_remote env rb b pre a u = Inr ((h, c), u')"
      then show "S u u' \<and> (\<forall>u2. S u' u2 \<longrightarrow> h = fp u2 a) \<and> puts (log u') = puts (log u)"
        using step unfolding P_def by blast
    qed (rule Srefl, erule (1) Strans, rule Sput)
    then show ?thesis using Srefl by (simp add: D_def)
  qed
  have loop1: "providers_loop (copy_remote env rb b pre) url_remote b pre
      (gather parse_remote xs []) (sort (map fst (gather parse_remote xs []))) w = Inr w1"
    using run1 by (simp add: run_remote_def Let_def)
  have post1: "S w w1 \<and> (\<forall>a \<in> parsed parse_remote xs. Q a w1)"
    using loop1
  proof (rule gather_post [where S = S and Q = Q])
    fix a u r u' assume "a \<in> parsed parse_remote xs" "copy_remote env rb b pre a u = Inr (r, u')"
    then show "S u u' \<and> Q a u'"
      using step [of a u "fst r" "snd r" u'] unfolding P_def by simp
  qed (erule (1) QS, rule Srefl, erule (1) Strans, rule Sput)
  then have q1: "\<exists>x xs. cached_dirhash env w1 (mk a) = Some (x # xs)" if "a \<in> P" for a
    using that unfolding Q_def P_def by blast
  define I where "I u \<longleftrightarrow> (\<forall>a \<in> P. cached_dirhash env u (mk a) = cached_dirhash env w1 (mk a)) \<and>
      copies (log u) = copies (log w1')" for u
  have i0: "I w1'" using cached_dirhash_objects [OF ob] by (simp add: I_def)
  have "\<exists>w2. providers_loop (copy_remote env rb b pre) url_remote b pre
      (gather parse_remote xs []) (sort (map fst (gather parse_remote xs []))) w1' = Inr w2 \<and> I w2"
    using i0
  proof (rule gather_total [where I = I])
    fix a u assume "a \<in> parsed parse_remote xs" and i: "I u"
    then have a: "a \<in> P" by (simp add: P_def)
    from q1 [OF a] obtain x xs where "cached_dirhash env w1 (mk a) = Some (x # xs)" by blast
    then have ca: "cached_dirhash env u (b, pre @ version a @ ''/'' @ file_name a) = Some (x # xs)"
      using i a by (simp add: I_def mk_def)
    have l: "load_error env (b, pre @ version a @ ''/'' @ file_name a) = None" using le by simp
    note s = copy_remote_skip [OF l ca, of rb]
    have "I (emit (HeadObject (b, pre @ version a @ ''/'' @ file_name a)) u)"
      using i by (simp add: I_def)
    then show "\<exists>r u'. copy_remote env rb b pre a u = Inr (r, u') \<and> I u'"
      using s by blast
  next
    fix k c u assume i: "I u"
    show "I (put_object (b, pre @ k @ ''.json'') c ''application/json'' u)"
      using i mk_json unfolding I_def by (simp add: cached_dirhash_put_object)
  qed
  then obtain w2 where run2: "run_remote env rb b pre xs w1' = Inr w2" and i2: "I w2"
    by (auto simp: run_remote_def Let_def)
  have "fp w2 a = fp w1 a" if "a \<in> parsed parse_remote xs" for a
    using i2 that by (simp add: I_def fp_def P_def)
  then have "D (fp w2) = D (fp w1)" unfolding D_def by (rule gather_docs_cong)
  then have "puts (log w2) = puts (log w1') @ D (fp w1)" using docs [OF run2] by simp
  moreover have "puts (log w1) = puts (log w) @ D (fp w1)" using docs [OF run1] by simp
  moreover have "copies (log w2) = copies (log w1')" using i2 by (simp add: I_def)
  ultimately show ?thesis using run2 by blast
qed

lemma main_remote_Inr:
  assumes "main_remote env argv w = Inr w'"
  shows "length argv = 3"
    and "head_bucket_error env (fst (parse_bucket_and_prefix (argv ! 1))) = None"
    and "head_bucket_error env (fst (parse_bucket_and_prefix (argv ! 2))) = None"
  using assms
  by (auto simp: main_remote_def check_bucket_access_def Let_def
      split: if_splits prod.splits option.splits sum.splits)

lemma main_remote_unfold:
  assumes "length argv = 3"
    and "head_bucket_error env (fst (parse_bucket_and_prefix (argv ! 1))) = None"
    and "head_bucket_error env (fst (parse_bucket_and_prefix (argv ! 2))) = None"
  shows "main_remote env argv w =
     run_remote env (fst (parse_bucket_and_prefix (argv ! 1)))
       (fst (parse_bucket_and_prefix (argv ! 2))) (snd (parse_bucket_and_prefix (argv ! 2)))
       (list_objects w (fst (parse_bucket_and_prefix (argv ! 1)))
          (snd (parse_bucket_and_prefix (argv ! 1))))
       (emit (ListObjects (fst (parse_bucket_and_prefix (argv ! 1)))
          (snd (parse_bucket_and_prefix (argv ! 1))))
         (emit (HeadBucket (fst (parse_bucket_and_prefix (argv ! 2))))
           (emit (HeadBucket (fst (parse_bucket_and_prefix (argv ! 1)))) w)))"
  using assms
  by (auto simp: main_remote_def check_bucket_access_def Let_def list_objects_def
      split: prod.splits)

lemma main_remote_again:
  assumes "main_remote env argv w0 = Inr w1"
    and "\<forall>k. load_error env k = None"
    and "\<forall>data. returncode (dirhasher_body env data) = 0 \<longrightarrow>
           strip (stdout (dirhasher_body env data)) \<noteq> []"
    and "list_objects w1 (fst (parse_bucket_and_prefix (argv ! 1)))
           (snd (parse_bucket_and_prefix (argv ! 1))) =
         list_objects w0 (fst (parse_bucket_and_prefix (argv ! 1)))
           (snd (parse_bucket_and_prefix (argv ! 1)))"
  shows "\<exists>w2. main_remote env argv (w1\<lparr>log := []\<rparr>) = Inr w2 \<and> copies (log w2) = [] \<and>
           puts (log w1) = puts (log w0) @ puts (log w2)"
proof -
  let ?rb = "fst (parse_bucket_and_prefix (argv ! 1))"
  let ?rpre = "snd (parse_bucket_and_prefix (argv ! 1))"
  let ?b = "fst (parse_bucket_and_prefix (argv ! 2))"
  let ?pre = "snd (parse_bucket_and_prefix (argv ! 2))"
  let ?start = "\<lambda>w. emit (ListObjects ?rb ?rpre) (emit (HeadBucket ?b) (emit (HeadBucket ?rb) w))"
  let ?xs = "list_objects w0 ?rb ?rpre"
  note u = main_remote_unfold [OF main_remote_Inr [OF assms(1)]]
  have run1: "run_remote env ?rb ?b ?pre ?xs (?start w0) = Inr w1"
    using assms(1) by (rule main_remote_run)
  have ob: "objects (?start (w1\<lparr>log := []\<rparr>)) = objects w1" by simp
  have ls: "list_objects (w1\<lparr>log := []\<rparr>) ?rb ?rpre = ?xs"
    using assms(4) by (simp add: list_objects_def)
  from run_remote_again [OF run1 assms(2,3) ob] obtain w2 ds
    where run2: "run_remote env ?rb ?b ?pre ?xs (?start (w1\<lparr>log := []\<rparr>)) = Inr w2"
      and c: "copies (log w2) = copies (log (?start (w1\<lparr>log := []\<rparr>)))"
      and p2: "puts (log w2) = puts (log (?start (w1\<lparr>log := []\<rparr>))) @ ds"
      and p1: "puts (log w1) = puts (log (?start w0)) @ ds"
    by blast
  have "puts (log w1) = puts (log w0) @ puts (log w2)" using p1 p2 by simp
  moreover have "copies (log w2) = []" using c by simp
  moreover have "main_remote env argv (w1\<lparr>log := []\<rparr>) = Inr w2"
    using run2 unfolding u ls .
  ultimately show ?thesis by blast
qed

lemma strip_nonempty: "\<not> is_space c \<Longrightarrow> strip (c # s) \<noteq> []"
  by (auto simp: strip_def dropWhile_eq_Nil_conv)

subsection \<open>Idempotence\<close>

text \<open>
  Claim C1.  Let a run complete, and let a second run be started on the same arguments from
  the store that the first run left.  In the local variant, when input files with the same
  file name have the same fingerprint, and in the remote variant, when the fingerprint
  procedure never prints an empty fingerprint and the listing of the releases is the same,
  the second run completes, uploads or copies no archive, and puts the documents that the
  first run put, with the same keys and the same bytes in the same order.  The store is one
  that answers the HEAD request for every object it holds.
\<close>

theorem second_run_copies_nothing:
  "(\<forall>k. load_error env k = None) \<longrightarrow>
   (main_local env argv w0 = Inr w1 \<and>
    (\<forall>a \<in> parsed parse_local (drop 2 argv). \<forall>a' \<in> parsed parse_local (drop 2 argv).
       file_name a = file_name a' \<longrightarrow> fp_local env a = fp_local env a') \<longrightarrow>
      (\<exists>w2. main_local env argv (w1\<lparr>log := []\<rparr>) = Inr w2 \<and> copies (log w2) = [] \<and>
         puts (log w1) = puts (log w0) @ puts (log w2))) \<and>
   (main_remote env argv w0 = Inr w1 \<and>
    (\<forall>data. returncode (dirhasher_body env data) = 0 \<longrightarrow>
       strip (stdout (dirhasher_body env data)) \<noteq> []) \<and>
    list_objects w1 (fst (parse_bucket_and_prefix (argv ! 1)))
        (snd (parse_bucket_and_prefix (argv ! 1))) =
      list_objects w0 (fst (parse_bucket_and_prefix (argv ! 1)))
        (snd (parse_bucket_and_prefix (argv ! 1))) \<longrightarrow>
      (\<exists>w2. main_remote env argv (w1\<lparr>log := []\<rparr>) = Inr w2 \<and> copies (log w2) = [] \<and>
         puts (log w1) = puts (log w0) @ puts (log w2)))"
proof (intro impI conjI)
  assume le: "\<forall>k. load_error env k = None"
  assume "main_local env argv w0 = Inr w1 \<and>
    (\<forall>a \<in> parsed parse_local (drop 2 argv). \<forall>a' \<in> parsed parse_local (drop 2 argv).
       file_name a = file_name a' \<longrightarrow> fp_local env a = fp_local env a')"
  then show "\<exists>w2. main_local env argv (w1\<lparr>log := []\<rparr>) = Inr w2 \<and> copies (log w2) = [] \<and>
         puts (log w1) = puts (log w0) @ puts (log w2)"
    using main_local_again [OF _ le] by blast
next
  assume le: "\<forall>k. load_error env k = None"
  assume "main_remote env argv w0 = Inr w1 \<and>
    (\<forall>data. returncode (dirhasher_body env data) = 0 \<longrightarrow>
       strip (stdout (dirhasher_body env data)) \<noteq> []) \<and>
    list_objects w1 (fst (parse_bucket_and_prefix (argv ! 1)))
        (snd (parse_bucket_and_prefix (argv ! 1))) =
      list_objects w0 (fst (parse_bucket_and_prefix (argv ! 1)))
        (snd (parse_bucket_and_prefix (argv ! 1)))"
  then show "\<exists>w2. main_remote env argv (w1\<lparr>log := []\<rparr>) = Inr w2 \<and> copies (log w2) = [] \<and>
         puts (log w1) = puts (log w0) @ puts (log w2)"
    using main_remote_again [OF _ le] by blast
qed

text \<open>
  The theorem at a local run on two archives of one version into an empty mirror, and at a
  remote run on a releases bucket with one archive.
\<close>

theorem second_run_copies_nothing_witness:
  "(\<exists>w1 w2. main_local example_env
        [''prog'', ''bkt/pre/'', ''pkg_1.0.0_linux_amd64.zip'', ''pkg_1.0.0_darwin_amd64.zip'']
        empty_world = Inr w1 \<and>
      main_local example_env
        [''prog'', ''bkt/pre/'', ''pkg_1.0.0_linux_amd64.zip'', ''pkg_1.0.0_darwin_amd64.zip'']
        (w1\<lparr>log := []\<rparr>) = Inr w2 \<and>
      copies (log w2) = [] \<and> puts (log w1) = puts (log w2)) \<and>
   (\<exists>w1 w2. main_remote example_env [''prog'', ''rel/x'', ''bkt/pre/''] release_world = Inr w1 \<and>
      main_remote example_env [''prog'', ''rel/x'', ''bkt/pre/''] (w1\<lparr>log := []\<rparr>) = Inr w2 \<and>
      copies (log w2) = [] \<and> puts (log w1) = puts (log w2))"
proof -
  let ?al = "[''prog'', ''bkt/pre/'', ''pkg_1.0.0_linux_amd64.zip'', ''pkg_1.0.0_darwin_amd64.zip'']"
  let ?ar = "[''prog'', ''rel/x'', ''bkt/pre/'']"
  have le: "\<forall>k. load_error example_env k = None" by (simp add: example_env_def)
  have ne: "\<forall>data. returncode (dirhasher_body example_env data) = 0 \<longrightarrow>
       strip (stdout (dirhasher_body example_env data)) \<noteq> []"
    by (simp add: example_env_def strip_nonempty is_space_def)
  have b2: "parse_bucket_and_prefix ''rel/x'' = (''rel'', ''x'')" by code_simp
  have l: "log empty_world = []" "log release_world = []"
    by (simp_all add: empty_world_def release_world_def)
  have "\<not> isl (main_local example_env ?al empty_world)" by code_simp
  then obtain w1 where w1: "main_local example_env ?al empty_world = Inr w1"
    by (cases "main_local example_env ?al empty_world") auto
  have p1: "parse_local ''pkg_1.0.0_linux_amd64.zip'' =
      Some \<lparr>path = ''pkg_1.0.0_linux_amd64.zip'', file_name = ''pkg_1.0.0_linux_amd64.zip'',
        provider = ''pkg'', version = ''1.0.0'', os = ''linux'', arch = ''amd64''\<rparr>"
    and p2: "parse_local ''pkg_1.0.0_darwin_amd64.zip'' =
      Some \<lparr>path = ''pkg_1.0.0_darwin_amd64.zip'', file_name = ''pkg_1.0.0_darwin_amd64.zip'',
        provider = ''pkg'', version = ''1.0.0'', os = ''darwin'', arch = ''amd64''\<rparr>"
    by code_simp+
  have h: "\<forall>a \<in> parsed parse_local (drop 2 ?al). \<forall>a' \<in> parsed parse_local (drop 2 ?al).
       file_name a = file_name a' \<longrightarrow> fp_local example_env a = fp_local example_env a'"
    by (auto simp: parsed_def p1 p2)
  have "case main_remote example_env ?ar release_world of
          Inl e \<Rightarrow> False
        | Inr w \<Rightarrow> list_objects w ''rel'' ''x'' = list_objects release_world ''rel'' ''x''"
    by code_simp
  then obtain w3 where w3: "main_remote example_env ?ar release_world = Inr w3"
    and ls: "list_objects w3 ''rel'' ''x'' = list_objects release_world ''rel'' ''x''"
    by (cases "main_remote example_env ?ar release_world") auto
  have ls': "list_objects w3 (fst (parse_bucket_and_prefix (?ar ! 1)))
        (snd (parse_bucket_and_prefix (?ar ! 1))) =
      list_objects release_world (fst (parse_bucket_and_prefix (?ar ! 1)))
        (snd (parse_bucket_and_prefix (?ar ! 1)))"
    using ls by (simp add: b2)
  note t1 = second_run_copies_nothing [of example_env ?al empty_world w1,
      THEN mp, OF le, THEN conjunct1, THEN mp, OF conjI [OF w1 h]]
  note t2 = second_run_copies_nothing [of example_env ?ar release_world w3,
      THEN mp, OF le, THEN conjunct2, THEN mp, OF conjI [OF w3 conjI [OF ne ls']]]
  from t1 have 1: "\<exists>w2. main_local example_env ?al (w1\<lparr>log := []\<rparr>) = Inr w2 \<and>
         copies (log w2) = [] \<and> puts (log w1) = puts (log w2)"
    by (simp only: l puts.simps append_Nil)
  from t2 have 2: "\<exists>w2. main_remote example_env ?ar (w3\<lparr>log := []\<rparr>) = Inr w2 \<and>
         copies (log w2) = [] \<and> puts (log w3) = puts (log w2)"
    by (simp only: l puts.simps append_Nil)
  show ?thesis using w1 w3 1 2 by blast
qed

text \<open>
  Claim C1 as stated fails in both variants.  A local run on two files with the same file
  name and different contents uploads both to the same mirror key, so that the mirror holds
  the fingerprint of the second file and the next run, on the same input, uploads both
  again.  A remote run whose fingerprint procedure prints nothing stores the empty string as
  fingerprint, which the next run reads as no fingerprint, and copies the archive again.
  The second runs put the documents of the first.
\<close>

theorem second_run_copies_again_counterexample:
  "(case main_local example_env [''prog'', ''bkt/pre/'', ''b/p_1_l_x.zip'', ''a/p_1_l_x.zip'']
      empty_world of
      Inl e \<Rightarrow> False
    | Inr w1 \<Rightarrow>
        (case main_local example_env [''prog'', ''bkt/pre/'', ''b/p_1_l_x.zip'', ''a/p_1_l_x.zip'']
           (w1\<lparr>log := []\<rparr>) of
           Inl e \<Rightarrow> False
         | Inr w2 \<Rightarrow>
             copies (log w2) = [(''bkt'', ''pre/p_1_l_x.zip''), (''bkt'', ''pre/p_1_l_x.zip'')] \<and>
             puts (log w2) = puts (log w1))) \<and>
   (case main_remote silent_env [''prog'', ''rel/x/'', ''bkt/pre/''] release_world of
      Inl e \<Rightarrow> False
    | Inr w1 \<Rightarrow>
        list_objects w1 ''rel'' ''x/'' = list_objects release_world ''rel'' ''x/'' \<and>
        (case main_remote silent_env [''prog'', ''rel/x/'', ''bkt/pre/''] (w1\<lparr>log := []\<rparr>) of
           Inl e \<Rightarrow> False
         | Inr w2 \<Rightarrow>
             copies (log w2) = [(''bkt'', ''pre/1/p_1_l_x.zip'')] \<and>
             puts (log w2) = puts (log w1)))"
  by code_simp

end
